theory Spec2Isabelle
  imports Main
begin

section \<open>Python values used by the model\<close>

text \<open>
  The exceptions that the modelled code can raise. \<open>IndexError\<close> comes from list
  indexing and \<open>list.pop\<close>, \<open>ValueError\<close> from \<open>list.remove\<close>,
  \<open>OverflowError\<close> from \<open>list.pop\<close> and \<open>list.insert\<close> when the index
  does not fit the machine's index type, \<open>StopIteration\<close> from \<open>next\<close> on an
  exhausted iterator, \<open>CsvError\<close> is \<open>csv.Error\<close>, and the two Unicode errors
  come from writing and reading the text of a file in an encoding.
\<close>

datatype error =
  IndexError | ValueError | OverflowError | StopIteration | CsvError
  | UnicodeEncodeError | UnicodeDecodeError

definition bind :: "error + 'a \<Rightarrow> ('a \<Rightarrow> error + 'b) \<Rightarrow> error + 'b" where
  "bind m f = (case m of Inl e \<Rightarrow> Inl e | Inr x \<Rightarrow> f x)"

text \<open>A \<open>for\<close> loop whose body may raise: the first exception ends the loop.\<close>

fun foldM :: "('s \<Rightarrow> 'a \<Rightarrow> error + 's) \<Rightarrow> 's \<Rightarrow> 'a list \<Rightarrow> error + 's" where
  "foldM f s [] = Inr s"
| "foldM f s (x # xs) = (case f s x of Inl e \<Rightarrow> Inl e | Inr s' \<Rightarrow> foldM f s' xs)"

text \<open>\<open>range(n)\<close> for a Python integer \<open>n\<close>: empty when \<open>n \<le> 0\<close>.\<close>

definition py_range :: "int \<Rightarrow> int list" where
  "py_range n = map int [0..<nat n]"

text \<open>
  Subscripting a Python list with an integer: a negative index counts from the end, and
  an index outside \<open>[-n, n)\<close> raises \<open>IndexError\<close>. The result is the position
  that is read or written.
\<close>

definition list_index :: "'a list \<Rightarrow> int \<Rightarrow> error + nat" where
  "list_index xs i =
     (let n = int (length xs); j = (if i < 0 then i + n else i)
      in if j < 0 \<or> n \<le> j then Inl IndexError else Inr (nat j))"

definition list_getitem :: "'a list \<Rightarrow> int \<Rightarrow> error + 'a" where
  "list_getitem xs i = bind (list_index xs i) (\<lambda>k. Inr (xs ! k))"

text \<open>\<open>separator.join(strings)\<close>.\<close>

fun join :: "string \<Rightarrow> string list \<Rightarrow> string" where
  "join sep [] = []"
| "join sep [x] = x"
| "join sep (x # y # ys) = x @ sep @ join sep (y # ys)"

section \<open>Header\<close>

record Header =
  column_names :: "string list"

definition Header_get_column_names :: "Header \<Rightarrow> string list" where
  "Header_get_column_names h = column_names h"

definition Header_get_column_count :: "Header \<Rightarrow> int" where
  "Header_get_column_count h = int (length (column_names h))"

section \<open>Entry\<close>

text \<open>
  A cell is a Python \<open>dict\<close> whose values are all \<open>None\<close>. A \<open>dict\<close> keeps its keys
  in insertion order and holds each key once, so the cell is modelled by the list of its
  keys in insertion order: \<open>{}\<close> is \<open>[]\<close> and \<open>{v: None}\<close> is \<open>[v]\<close>.
\<close>

type_synonym cell = "string list"

text \<open>\<open>d.update({k: None})\<close>: a key already present keeps its place.\<close>

definition dict_update :: "cell \<Rightarrow> string \<Rightarrow> cell" where
  "dict_update d k = (if k \<in> set d then d else d @ [k])"

text \<open>\<open>d.clear()\<close>.\<close>

definition dict_clear :: "cell \<Rightarrow> cell" where
  "dict_clear d = []"

text \<open>\<open>list(d.keys())\<close>.\<close>

definition dict_keys :: "cell \<Rightarrow> string list" where
  "dict_keys d = d"

record Entry =
  column_count :: int
  cell_values :: "cell list"

text \<open>
  \<open>Entry(length=len, values=values)\<close>. The argument \<open>values\<close> may be \<open>None\<close>;
  its default is the empty list. \<open>[""] * len\<close> is empty for a negative \<open>len\<close>.
\<close>

definition Entry_init :: "int \<Rightarrow> string list option \<Rightarrow> Entry" where
  "Entry_init len values =
     (let values' = (case values of
                       None \<Rightarrow> replicate (nat len) ''''
                     | Some vs \<Rightarrow> if length vs = 0 then replicate (nat len) '''' else vs)
      in \<lparr>column_count = int (length values'),
          cell_values = map (\<lambda>column_value. if column_value \<noteq> '''' then [column_value] else []) values'\<rparr>)"

text \<open>
  The methods that change an entry return the changed entry. After the bounds guard the
  code subscripts \<open>self.__cell_values\<close>, which raises when the list is shorter than
  \<open>self.__column_count\<close> says.
\<close>

definition append_value_to_column :: "Entry \<Rightarrow> int \<Rightarrow> string \<Rightarrow> error + Entry" where
  "append_value_to_column self column_index v =
     (if column_index < 0 \<or> column_index \<ge> column_count self then Inr self
      else if v = '''' then Inr self
      else bind (list_index (cell_values self) column_index)
             (\<lambda>k. Inr (self\<lparr>cell_values := (cell_values self)[k := dict_update (cell_values self ! k) v]\<rparr>)))"

definition set_value_at_column :: "Entry \<Rightarrow> int \<Rightarrow> string \<Rightarrow> error + Entry" where
  "set_value_at_column self column_index v =
     (if column_index < 0 \<or> column_index \<ge> column_count self then Inr self
      else if v = '''' then Inr self
      else bind (list_index (cell_values self) column_index)
             (\<lambda>k. Inr (self\<lparr>cell_values :=
                      (cell_values self)[k := dict_update (dict_clear (cell_values self ! k)) v]\<rparr>)))"

definition get_values_from_column :: "Entry \<Rightarrow> int \<Rightarrow> error + string list" where
  "get_values_from_column self column_index =
     bind (list_getitem (cell_values self) column_index) (\<lambda>d. Inr (dict_keys d))"

definition get_value_str_from_column :: "Entry \<Rightarrow> int \<Rightarrow> string \<Rightarrow> error + string" where
  "get_value_str_from_column self column_index separator =
     (if column_index < 0 \<or> column_index \<ge> column_count self then Inr ''''
      else bind (get_values_from_column self column_index) (\<lambda>vs. Inr (join separator vs)))"

definition get_value_str_from_columns :: "Entry \<Rightarrow> string \<Rightarrow> error + string list" where
  "get_value_str_from_columns self separator =
     foldM (\<lambda>value_strings column_index.
              bind (get_value_str_from_column self column_index separator)
                (\<lambda>value_string. Inr (value_strings @ [value_string])))
       [] (py_range (column_count self))"

definition Entry_get_column_count :: "Entry \<Rightarrow> int" where
  "Entry_get_column_count self = column_count self"

text \<open>The inner loop shared by \<open>get_deep_copy\<close> and \<open>merge_entries\<close>:
  \<open>for value in column_values: target.append_value_to_column(column_index, value)\<close>.\<close>

definition append_values_to_column :: "Entry \<Rightarrow> int \<Rightarrow> string list \<Rightarrow> error + Entry" where
  "append_values_to_column target column_index column_values =
     foldM (\<lambda>t v. append_value_to_column t column_index v) target column_values"

definition get_deep_copy :: "Entry \<Rightarrow> error + Entry" where
  "get_deep_copy self =
     foldM (\<lambda>deep_copy column_index.
              bind (get_values_from_column self column_index)
                (\<lambda>column_values. append_values_to_column deep_copy column_index column_values))
       (Entry_init (column_count self) (Some []))
       (py_range (column_count self))"

definition merge_entries :: "Entry \<Rightarrow> Entry list option \<Rightarrow> error + Entry" where
  "merge_entries self entries =
     bind (get_deep_copy self) (\<lambda>merged_entry.
       case entries of
         None \<Rightarrow> Inr merged_entry
       | Some es \<Rightarrow>
           if length es = 0 then Inr merged_entry
           else foldM (\<lambda>merged entry.
                  foldM (\<lambda>merged column_index.
                           bind (get_values_from_column entry column_index)
                             (\<lambda>column_values. append_values_to_column merged column_index column_values))
                    merged (py_range (min (column_count self) (column_count entry))))
                merged_entry es)"

text \<open>
  The class invariant that the constructor establishes and no method breaks: the stored
  column count is the number of cells.
\<close>

definition well_formed :: "Entry \<Rightarrow> bool" where
  "well_formed e = (column_count e = int (length (cell_values e)))"

section \<open>Table\<close>

text \<open>
  A table holds references to entry objects, and \<open>Entry\<close> defines no \<open>__eq__\<close>, so
  two entries compare equal only when they are the same object. The objects therefore
  live in a store: a reference is a position in the store, and a new object is put at
  its end. References held by a table are positions of the store.
\<close>

type_synonym ref = nat
type_synonym heap = "Entry list"

record Table =
  header :: Header
  entries :: "ref list"

text \<open>\<open>Table(header, entries)\<close>: every given entry is deep-copied into a new object.\<close>

definition Table_init :: "heap \<Rightarrow> Header \<Rightarrow> ref list option \<Rightarrow> error + heap \<times> Table" where
  "Table_init h hdr entries_arg =
     (case entries_arg of
        None \<Rightarrow> Inr (h, \<lparr>header = hdr, entries = []\<rparr>)
      | Some rs \<Rightarrow>
          bind (foldM (\<lambda>(h', es) r. bind (get_deep_copy (h' ! r))
                         (\<lambda>c. Inr (h' @ [c], es @ [length h'])))
                  (h, []) rs)
            (\<lambda>(h', es). Inr (h', \<lparr>header = hdr, entries = es\<rparr>)))"

definition Table_get_column_names :: "Table \<Rightarrow> string list" where
  "Table_get_column_names self = Header_get_column_names (header self)"

definition Table_get_column_count :: "Table \<Rightarrow> int" where
  "Table_get_column_count self = Header_get_column_count (header self)"

definition get_entries :: "Table \<Rightarrow> ref list" where
  "get_entries self = entries self"

definition get_entry_count :: "Table \<Rightarrow> int" where
  "get_entry_count self = int (length (entries self))"

definition get_entry :: "Table \<Rightarrow> int \<Rightarrow> error + ref" where
  "get_entry self index = list_getitem (entries self) index"

definition append_entry :: "Table \<Rightarrow> ref \<Rightarrow> Table" where
  "append_entry self entry = self\<lparr>entries := entries self @ [entry]\<rparr>"

text \<open>
  \<open>list.pop\<close> and \<open>list.insert\<close> convert their index argument to the machine's
  index type (\<open>Py_ssize_t\<close>, 64 bits here) before anything else, and raise
  \<open>OverflowError\<close> when it does not fit. Subscripting does not: there an index that
  does not fit raises \<open>IndexError\<close> like any other index out of range.
\<close>

definition PY_SSIZE_T_MAX :: int where
  "PY_SSIZE_T_MAX = 2 ^ 63 - 1"

definition fits_ssize_t :: "int \<Rightarrow> bool" where
  "fits_ssize_t i = (- PY_SSIZE_T_MAX - 1 \<le> i \<and> i \<le> PY_SSIZE_T_MAX)"

text \<open>
  \<open>list.insert(i, x)\<close> raises for no index that fits: a negative index counts from
  the end, and the position is then clamped to \<open>[0, n]\<close>.
\<close>

definition list_insert :: "'a list \<Rightarrow> int \<Rightarrow> 'a \<Rightarrow> error + 'a list" where
  "list_insert xs i x =
     (if \<not> fits_ssize_t i then Inl OverflowError
      else let n = int (length xs);
               j = (if i < 0 then (if i + n < 0 then 0 else i + n) else i);
               k = (if j > n then n else j)
           in Inr (take (nat k) xs @ x # drop (nat k) xs))"

definition insert_entry :: "Table \<Rightarrow> int \<Rightarrow> ref \<Rightarrow> error + Table" where
  "insert_entry self index entry =
     bind (list_insert (entries self) index entry) (\<lambda>es. Inr (self\<lparr>entries := es\<rparr>))"

text \<open>\<open>list.pop(i)\<close> returns the element and the list without it.\<close>

definition list_pop :: "'a list \<Rightarrow> int \<Rightarrow> error + 'a \<times> 'a list" where
  "list_pop xs i =
     (if \<not> fits_ssize_t i then Inl OverflowError
      else bind (list_index xs i) (\<lambda>k. Inr (xs ! k, take k xs @ drop (Suc k) xs)))"

definition pop_entry :: "Table \<Rightarrow> int \<Rightarrow> error + ref \<times> Table" where
  "pop_entry self index =
     bind (list_pop (entries self) index) (\<lambda>(r, es). Inr (r, self\<lparr>entries := es\<rparr>))"

text \<open>
  \<open>list.remove(x)\<close> deletes the first element that is \<open>x\<close> or compares equal to it
  and raises \<open>ValueError\<close> when there is none. The elements are references to
  entries, whose equality is identity.
\<close>

fun list_remove :: "ref list \<Rightarrow> ref \<Rightarrow> error + ref list" where
  "list_remove [] x = Inl ValueError"
| "list_remove (y # ys) x =
     (if y = x then Inr ys
      else case list_remove ys x of Inl e \<Rightarrow> Inl e | Inr zs \<Rightarrow> Inr (y # zs))"

definition remove_entry :: "Table \<Rightarrow> ref \<Rightarrow> error + ref \<times> Table" where
  "remove_entry self entry =
     bind (list_remove (entries self) entry) (\<lambda>es. Inr (entry, self\<lparr>entries := es\<rparr>))"

definition Table_get_deep_copy :: "heap \<Rightarrow> Table \<Rightarrow> error + heap \<times> Table" where
  "Table_get_deep_copy h self = Table_init h (header self) (Some (entries self))"

text \<open>What a table holds, read through the store: its column names and its rows.\<close>

definition table_value :: "heap \<Rightarrow> Table \<Rightarrow> string list \<times> Entry list" where
  "table_value h t = (column_names (header t), map (\<lambda>r. h ! r) (entries t))"

section \<open>Entry objects in the store\<close>

text \<open>
  The entry methods that create or change objects, on the store. The constructor puts
  a new object at the end of the store and returns its reference; a method that changes
  an entry replaces the object at its reference; a method that reads an entry reads the
  object that is at its reference at that moment.
\<close>

definition Entry_new :: "heap \<Rightarrow> int \<Rightarrow> string list option \<Rightarrow> heap \<times> ref" where
  "Entry_new h len values = (h @ [Entry_init len values], length h)"

definition append_value_to_column_in :: "heap \<Rightarrow> ref \<Rightarrow> int \<Rightarrow> string \<Rightarrow> error + heap" where
  "append_value_to_column_in h self column_index v =
     bind (append_value_to_column (h ! self) column_index v) (\<lambda>e. Inr (h[self := e]))"

definition append_values_to_column_in :: "heap \<Rightarrow> ref \<Rightarrow> int \<Rightarrow> string list \<Rightarrow> error + heap" where
  "append_values_to_column_in h target column_index column_values =
     foldM (\<lambda>h' v. append_value_to_column_in h' target column_index v) h column_values"

definition get_deep_copy_in :: "heap \<Rightarrow> ref \<Rightarrow> error + heap \<times> ref" where
  "get_deep_copy_in h self =
     (case Entry_new h (column_count (h ! self)) (Some []) of
        (h0, deep_copy) \<Rightarrow>
          bind (foldM (\<lambda>h' column_index.
                         bind (get_values_from_column (h' ! self) column_index)
                           (\<lambda>column_values.
                              append_values_to_column_in h' deep_copy column_index column_values))
                  h0 (py_range (column_count (h0 ! self))))
            (\<lambda>h'. Inr (h', deep_copy)))"

definition merge_entries_in :: "heap \<Rightarrow> ref \<Rightarrow> ref list option \<Rightarrow> error + heap \<times> ref" where
  "merge_entries_in h self entries_arg =
     bind (get_deep_copy_in h self) (\<lambda>(h1, merged_entry).
       case entries_arg of
         None \<Rightarrow> Inr (h1, merged_entry)
       | Some es \<Rightarrow>
           if length es = 0 then Inr (h1, merged_entry)
           else bind (foldM (\<lambda>h' entry.
                         foldM (\<lambda>h'' column_index.
                                  bind (get_values_from_column (h'' ! entry) column_index)
                                    (\<lambda>column_values.
                                       append_values_to_column_in h'' merged_entry column_index
                                         column_values))
                           h' (py_range (min (column_count (h' ! self)) (column_count (h' ! entry)))))
                       h1 es)
                  (\<lambda>h'. Inr (h', merged_entry)))"

section \<open>The csv module, default dialect\<close>

text \<open>
  \<open>csv.writer\<close> and \<open>csv.reader\<close> with their default dialect: delimiter \<open>,\<close>,
  quote character \<open>"\<close>, doubled quotes inside a quoted field, no escape character,
  minimal quoting, line terminator CR LF, not strict.
\<close>

definition CR :: char where "CR = CHR 0x0D"
definition LF :: char where "LF = CHR 0x0A"
definition delimiter :: char where "delimiter = CHR 0x2C"
definition quotechar :: char where "quotechar = CHR 0x22"
definition lineterminator :: string where "lineterminator = [CR, LF]"

subsection \<open>Writer\<close>

text \<open>A field is quoted when it holds the delimiter, the quote character or a character
  of the line terminator; every quote character in it is doubled.\<close>

definition needs_quoting :: "string \<Rightarrow> bool" where
  "needs_quoting f = list_ex (\<lambda>c. c = delimiter \<or> c = quotechar \<or> c = CR \<or> c = LF) f"

definition join_append :: "string \<Rightarrow> bool \<Rightarrow> string" where
  "join_append f quoted =
     (let data = concat (map (\<lambda>c. if c = quotechar then [quotechar, c] else [c]) f)
      in if quoted \<or> needs_quoting f then [quotechar] @ data @ [quotechar] else data)"

text \<open>\<open>writer.writerow(row)\<close>: the text of one record. A record that would be
  empty although it has a field (one empty field) is written as a quoted empty field.\<close>

definition writerow :: "string list \<Rightarrow> string" where
  "writerow row =
     (let rec = join [delimiter] (map (\<lambda>f. join_append f False) row)
      in (if length row > 0 \<and> rec = [] then join_append [] True else rec) @ lineterminator)"

subsection \<open>Reader\<close>

datatype ParserState =
  START_RECORD | START_FIELD | IN_FIELD | IN_QUOTED_FIELD | QUOTE_IN_QUOTED_FIELD | EAT_CRNL

record Reader =
  rd_state :: ParserState
  rd_field :: string
  rd_fields :: "string list"

definition field_limit :: nat where
  "field_limit = 131072"

definition parse_reset :: "Reader" where
  "parse_reset = \<lparr>rd_state = START_RECORD, rd_field = [], rd_fields = []\<rparr>"

definition parse_save_field :: "Reader \<Rightarrow> Reader" where
  "parse_save_field self = self\<lparr>rd_fields := rd_fields self @ [rd_field self], rd_field := []\<rparr>"

definition parse_add_char :: "Reader \<Rightarrow> char \<Rightarrow> error + Reader" where
  "parse_add_char self c =
     (if length (rd_field self) \<ge> field_limit then Inl CsvError
      else Inr (self\<lparr>rd_field := rd_field self @ [c]\<rparr>))"

text \<open>One step of the reader's automaton; \<open>None\<close> is the end-of-line mark that the
  reader feeds after the last character of every line.\<close>

definition end_of_record :: "Reader \<Rightarrow> char option \<Rightarrow> Reader" where
  "end_of_record self c =
     (parse_save_field self)\<lparr>rd_state := (if c = None then START_RECORD else EAT_CRNL)\<rparr>"

definition is_newline :: "char option \<Rightarrow> bool" where
  "is_newline c = (c = Some LF \<or> c = Some CR)"

definition start_field :: "Reader \<Rightarrow> char option \<Rightarrow> error + Reader" where
  "start_field self c =
     (case c of
        None \<Rightarrow> Inr (end_of_record self c)
      | Some ch \<Rightarrow>
          if is_newline c then Inr (end_of_record self c)
          else if ch = quotechar then Inr (self\<lparr>rd_state := IN_QUOTED_FIELD\<rparr>)
          else if ch = delimiter then Inr (parse_save_field self)
          else bind (parse_add_char self ch) (\<lambda>s. Inr (s\<lparr>rd_state := IN_FIELD\<rparr>)))"

definition parse_process_char :: "Reader \<Rightarrow> char option \<Rightarrow> error + Reader" where
  "parse_process_char self c =
     (case rd_state self of
        START_RECORD \<Rightarrow>
          (case c of
             None \<Rightarrow> Inr self
           | Some ch \<Rightarrow>
               if is_newline c then Inr (self\<lparr>rd_state := EAT_CRNL\<rparr>)
               else start_field (self\<lparr>rd_state := START_FIELD\<rparr>) c)
      | START_FIELD \<Rightarrow> start_field self c
      | IN_FIELD \<Rightarrow>
          (case c of
             None \<Rightarrow> Inr (end_of_record self c)
           | Some ch \<Rightarrow>
               if is_newline c then Inr (end_of_record self c)
               else if ch = delimiter then Inr ((parse_save_field self)\<lparr>rd_state := START_FIELD\<rparr>)
               else parse_add_char self ch)
      | IN_QUOTED_FIELD \<Rightarrow>
          (case c of
             None \<Rightarrow> Inr self
           | Some ch \<Rightarrow>
               if ch = quotechar then Inr (self\<lparr>rd_state := QUOTE_IN_QUOTED_FIELD\<rparr>)
               else parse_add_char self ch)
      | QUOTE_IN_QUOTED_FIELD \<Rightarrow>
          (case c of
             None \<Rightarrow> Inr (end_of_record self c)
           | Some ch \<Rightarrow>
               if ch = quotechar
               then bind (parse_add_char self ch) (\<lambda>s. Inr (s\<lparr>rd_state := IN_QUOTED_FIELD\<rparr>))
               else if ch = delimiter then Inr ((parse_save_field self)\<lparr>rd_state := START_FIELD\<rparr>)
               else if is_newline c then Inr (end_of_record self c)
               else bind (parse_add_char self ch) (\<lambda>s. Inr (s\<lparr>rd_state := IN_FIELD\<rparr>)))
      | EAT_CRNL \<Rightarrow>
          (case c of
             None \<Rightarrow> Inr (self\<lparr>rd_state := START_RECORD\<rparr>)
           | Some ch \<Rightarrow> if is_newline c then Inr self else Inl CsvError))"

text \<open>The reader feeds a line character by character and then the end-of-line mark.\<close>

definition feed_line :: "Reader \<Rightarrow> string \<Rightarrow> error + Reader" where
  "feed_line self line =
     bind (foldM (\<lambda>s ch. parse_process_char s (Some ch)) self line)
       (\<lambda>s. parse_process_char s None)"

text \<open>
  All the records that iterating the reader yields over the given lines. A record is
  complete when the automaton is back at \<open>START_RECORD\<close> after a line; otherwise the
  next line continues it. When the lines end inside a record, the record is yielded if
  a field has been begun; with nothing pending the iteration stops.
\<close>

fun reader_rows :: "Reader \<Rightarrow> string list \<Rightarrow> error + string list list" where
  "reader_rows self [] =
     (if rd_field self \<noteq> [] \<or> rd_state self = IN_QUOTED_FIELD
      then Inr [rd_fields (parse_save_field self)] else Inr [])"
| "reader_rows self (line # rest) =
     (case feed_line self line of
        Inl e \<Rightarrow> Inl e
      | Inr s \<Rightarrow>
          if rd_state s \<noteq> START_RECORD then reader_rows s rest
          else (case reader_rows parse_reset rest of
                  Inl e \<Rightarrow> Inl e
                | Inr rows \<Rightarrow> Inr (rd_fields s # rows)))"

subsection \<open>Text files\<close>

text \<open>
  The file is written with \<open>newline=''\<close>, so the text written to it is not
  changed before it is encoded. It is read in text mode with universal newlines: in
  the decoded text CR LF and a lone CR become LF, and the lines that iterating the file
  yields end after each LF.
\<close>

fun universal_newlines :: "string \<Rightarrow> string" where
  "universal_newlines [] = []"
| "universal_newlines [c] = (if c = CR then [LF] else [c])"
| "universal_newlines (c # d # cs) =
     (if c = CR \<and> d = LF then LF # universal_newlines cs
      else if c = CR then LF # universal_newlines (d # cs)
      else c # universal_newlines (d # cs))"

fun readlines :: "string \<Rightarrow> string list" where
  "readlines [] = []"
| "readlines (c # cs) =
     (if c = LF then [LF] # readlines cs
      else case readlines cs of [] \<Rightarrow> [[c]] | l # ls \<Rightarrow> (c # l) # ls)"

definition file_lines :: "string \<Rightarrow> string list" where
  "file_lines content = readlines (universal_newlines content)"

text \<open>
  The \<open>encoding\<close> argument of \<open>open\<close> names a codec: how a text becomes
  the bytes of the file and how bytes become a text again, each of which may fail. A
  character of the model is a code point below 256 and a byte is a \<open>char\<close> as well.
  Two codecs of Python are given in full: \<open>ascii\<close>, which knows the code points
  below 128 only, and \<open>latin-1\<close>, which maps every code point below 256 to the byte
  of the same number.
\<close>

type_synonym bytes = "char list"

record Codec =
  encode :: "string \<Rightarrow> error + bytes"
  decode :: "bytes \<Rightarrow> error + string"

definition is_ascii :: "char \<Rightarrow> bool" where
  "is_ascii c = (of_char c < (128 :: nat))"

definition ascii_codec :: Codec where
  "ascii_codec =
     \<lparr>encode = (\<lambda>s. if list_all is_ascii s then Inr s else Inl UnicodeEncodeError),
      decode = (\<lambda>b. if list_all is_ascii b then Inr b else Inl UnicodeDecodeError)\<rparr>"

definition latin_1_codec :: Codec where
  "latin_1_codec = \<lparr>encode = (\<lambda>s. Inr s), decode = (\<lambda>b. Inr b)\<rparr>"

section \<open>CSV codec\<close>

text \<open>
  \<open>CSV_to_table\<close> takes the content of the file, which is the text that its bytes
  decode to, and the store, and returns the new table with the store that holds its
  entries. \<open>next(csv_reader)\<close> raises \<open>StopIteration\<close> when the reader yields no
  record.
\<close>

definition CSV_to_table :: "heap \<Rightarrow> string \<Rightarrow> error + heap \<times> Table" where
  "CSV_to_table h content =
     bind (reader_rows parse_reset (file_lines content)) (\<lambda>rows.
       case rows of
         [] \<Rightarrow> Inl StopIteration
       | header_list # data \<Rightarrow>
           (case foldl (\<lambda>(h', es) row. (h' @ [Entry_init 0 (Some row)], es @ [length h']))
                   (h, []) data of
              (h', es) \<Rightarrow> Table_init h' \<lparr>column_names = header_list\<rparr> (Some es)))"

text \<open>
  \<open>CSV_to_table\<close> on the bytes of a file opened with an encoding: the bytes are
  decoded, and the text is parsed.
\<close>

definition CSV_file_to_table :: "heap \<Rightarrow> Codec \<Rightarrow> bytes \<Rightarrow> error + heap \<times> Table" where
  "CSV_file_to_table h encoding file =
     bind (decode encoding file) (\<lambda>content. CSV_to_table h content)"

text \<open>
  \<open>table_to_CSV\<close> returns the bytes of the file. Every \<open>writerow\<close> hands the text
  of its record to the file, which encodes it and raises when it cannot.
\<close>

definition write_text :: "Codec \<Rightarrow> bytes \<Rightarrow> string \<Rightarrow> error + bytes" where
  "write_text encoding file s = bind (encode encoding s) (\<lambda>b. Inr (file @ b))"

definition table_to_CSV :: "heap \<Rightarrow> Table \<Rightarrow> Codec \<Rightarrow> error + bytes" where
  "table_to_CSV h table encoding =
     bind (write_text encoding [] (writerow (Table_get_column_names table))) (\<lambda>file.
       foldM (\<lambda>file r. bind (get_value_str_from_columns (h ! r) '', '')
                         (\<lambda>value_strings. write_text encoding file (writerow value_strings)))
         file (get_entries table))"

text \<open>Serializing a table and parsing the file, with the same encoding on both sides.\<close>

definition roundtrip :: "heap \<Rightarrow> Table \<Rightarrow> Codec \<Rightarrow> error + heap \<times> Table" where
  "roundtrip h t encoding =
     bind (table_to_CSV h t encoding) (\<lambda>file. CSV_file_to_table h encoding file)"

section \<open>Notions used to state the properties\<close>

text \<open>
  What appending one value does to a cell: the empty string is ignored, a value already
  present is ignored, any other value goes to the end.
\<close>

definition cell_append :: "cell \<Rightarrow> string \<Rightarrow> cell" where
  "cell_append d v = (if v = '''' then d else dict_update d v)"

text \<open>The cell invariant: no empty string, and no value twice.\<close>

definition cell_ok :: "cell \<Rightarrow> bool" where
  "cell_ok d = ('''' \<notin> set d \<and> distinct d)"

definition entry_ok :: "Entry \<Rightarrow> bool" where
  "entry_ok e = (well_formed e \<and> list_all cell_ok (cell_values e))"

text \<open>
  The entries that the public operations can produce: the constructor, the two
  mutators, the deep copy and the merge, applied to entries obtained the same way.
\<close>

inductive reachable :: "Entry \<Rightarrow> bool" where
  r_init: "reachable (Entry_init len values)"
| r_append: "reachable e \<Longrightarrow> append_value_to_column e c v = Inr e' \<Longrightarrow> reachable e'"
| r_set: "reachable e \<Longrightarrow> set_value_at_column e c v = Inr e' \<Longrightarrow> reachable e'"
| r_copy: "reachable e \<Longrightarrow> get_deep_copy e = Inr e' \<Longrightarrow> reachable e'"
| r_merge: "reachable e \<Longrightarrow> list_all reachable es \<Longrightarrow> merge_entries e (Some es) = Inr e' \<Longrightarrow> reachable e'"
| r_merge_none: "reachable e \<Longrightarrow> merge_entries e None = Inr e' \<Longrightarrow> reachable e'"

text \<open>
  The effect of one pass of the column loop of \<open>get_deep_copy\<close> and \<open>merge_entries\<close>
  over the first \<open>n\<close> columns: each of them receives the values of the same column of
  the source entry, the others stay as they are.
\<close>

definition merge_columns :: "nat \<Rightarrow> Entry \<Rightarrow> Entry \<Rightarrow> Entry" where
  "merge_columns n src m =
     m\<lparr>cell_values :=
         map (\<lambda>k. if k < n then foldl cell_append (cell_values m ! k) (cell_values src ! k)
                  else cell_values m ! k)
           [0..<length (cell_values m)]\<rparr>"

text \<open>The values that \<open>merge_entries\<close> appends to column \<open>i\<close>: those of column \<open>i\<close>
  of every other entry that has such a column, in the order of the entries.\<close>

definition merged_values :: "Entry list \<Rightarrow> nat \<Rightarrow> string list" where
  "merged_values others i =
     concat (map (\<lambda>other. cell_values other ! i) (filter (\<lambda>other. int i < column_count other) others))"

text \<open>The entry that \<open>CSV_to_table\<close> builds from one record.\<close>

definition entry_of_row :: "string list \<Rightarrow> Entry" where
  "entry_of_row row =
     \<lparr>column_count = int (length row),
      cell_values = map (\<lambda>f. if f = '''' then [] else [f]) row\<rparr>"

text \<open>Feeding the characters of a text to the reader's automaton, one by one.\<close>

definition feed_chars :: "Reader \<Rightarrow> string \<Rightarrow> error + Reader" where
  "feed_chars self str = foldM (\<lambda>s ch. parse_process_char s (Some ch)) self str"



text \<open>The display strings of an entry: every cell's values joined by \<open>", "\<close>.\<close>

definition display_strings :: "Entry \<Rightarrow> string list" where
  "display_strings e = map (join '', '') (cell_values e)"

text \<open>The records that \<open>table_to_CSV\<close> writes: the column names, then the display
  strings of every row.\<close>

definition csv_rows :: "heap \<Rightarrow> Table \<Rightarrow> string list list" where
  "csv_rows h t = column_names (header t) # map (\<lambda>r. display_strings (h ! r)) (entries t)"

text \<open>
  The encoding can write the given texts one after the other, and the bytes written
  decode to the texts put together.
\<close>

definition encode_all :: "Codec \<Rightarrow> string list \<Rightarrow> error + bytes" where
  "encode_all encoding texts = foldM (write_text encoding) [] texts"






section \<open>Example values\<close>

text \<open>An entry of two columns: the first holds one value, the second is empty.\<close>

definition ex_entry :: Entry where
  "ex_entry = \<lparr>column_count = 2, cell_values = [[''a''], []]\<rparr>"

text \<open>An entry of three columns and an entry of two columns to merge into it.\<close>

definition ex_entryA :: Entry where
  "ex_entryA = \<lparr>column_count = 3, cell_values = [[''a'', ''b''], [], [''z'']]\<rparr>"

definition ex_entryB :: Entry where
  "ex_entryB = \<lparr>column_count = 2, cell_values = [[''b'', ''c''], [''q'']]\<rparr>"

text \<open>
  A store with two distinct entry objects that hold the same values, and a table whose
  only row is the first of them.
\<close>

definition ex_heap :: heap where
  "ex_heap = [\<lparr>column_count = 1, cell_values = [[''a'']]\<rparr>,
              \<lparr>column_count = 1, cell_values = [[''a'']]\<rparr>]"

definition ex_table :: Table where
  "ex_table = \<lparr>header = \<lparr>column_names = [''h'']\<rparr>, entries = [0]\<rparr>"

text \<open>A file whose data record has two fields under a header of three.\<close>

definition ex_short_csv :: string where
  "ex_short_csv = ''Name,Email,Phone'' @ [LF] @ ''Alice,'' @ [LF]"






text \<open>A store that holds the two example entries.\<close>

definition ex_merge_heap :: heap where
  "ex_merge_heap = [ex_entryA, ex_entryB]"

text \<open>A table of one row whose only value holds a CR, and what it is read back as.\<close>

definition ex_cr_heap :: heap where
  "ex_cr_heap = [\<lparr>column_count = 1, cell_values = [[''a'' @ [CR] @ ''b'']]\<rparr>]"

definition ex_cr_table :: Table where
  "ex_cr_table = \<lparr>header = \<lparr>column_names = [''h'']\<rparr>, entries = [0]\<rparr>"

definition ex_cr_content :: string where
  "ex_cr_content = ''h'' @ [CR, LF] @ [quotechar] @ ''a'' @ [CR] @ ''b'' @ [quotechar] @ [CR, LF]"

text \<open>A table without rows whose column name holds a character above 127.\<close>

definition ex_accent_table :: Table where
  "ex_accent_table = \<lparr>header = \<lparr>column_names = [[CHR 0xE9]]\<rparr>, entries = []\<rparr>"

section \<open>Basic facts\<close>

lemma bind_Inr [simp]: "bind (Inr x) f = f x"
  by (simp add: bind_def)

lemma bind_Inl [simp]: "bind (Inl e) f = Inl e"
  by (simp add: bind_def)

lemma list_index_in_range:
  "0 \<le> i \<Longrightarrow> i < int (length xs) \<Longrightarrow> list_index xs i = Inr (nat i)"
  by (simp add: list_index_def Let_def)

lemma list_index_negative:
  "i < 0 \<Longrightarrow> - int (length xs) \<le> i \<Longrightarrow> list_index xs i = Inr (nat (i + int (length xs)))"
  by (simp add: list_index_def Let_def)

lemma list_index_error:
  "i < - int (length xs) \<or> int (length xs) \<le> i \<Longrightarrow> list_index xs i = Inl IndexError"
  by (auto simp add: list_index_def Let_def)

lemma foldM_append:
  "foldM f s (xs @ ys) = bind (foldM f s xs) (\<lambda>s'. foldM f s' ys)"
  by (induction xs arbitrary: s) (auto split: sum.splits)

lemma foldM_pure:
  assumes "P s"
    and "\<And>s x. P s \<Longrightarrow> x \<in> set xs \<Longrightarrow> f s x = Inr (g s x) \<and> P (g s x)"
  shows "foldM f s xs = Inr (foldl g s xs) \<and> P (foldl g s xs)"
  using assms
proof (induction xs arbitrary: s)
  case Nil
  then show ?case by simp
next
  case (Cons x xs)
  have step: "f s x = Inr (g s x)" and inv: "P (g s x)"
    using Cons.prems by auto
  have "foldM f (g s x) xs = Inr (foldl g (g s x) xs) \<and> P (foldl g (g s x) xs)"
    by (rule Cons.IH [OF inv]) (use Cons.prems(2) in auto)
  with step show ?case by simp
qed

lemma well_formed_Entry_init: "well_formed (Entry_init len values)"
  by (simp add: well_formed_def Entry_init_def Let_def split: option.splits)

lemma append_value_to_column_wf:
  assumes "well_formed e" "0 \<le> c" "c < column_count e"
  shows "append_value_to_column e c v =
           Inr (e\<lparr>cell_values := (cell_values e)[nat c := cell_append (cell_values e ! nat c) v]\<rparr>)"
  using assms
  by (simp add: append_value_to_column_def well_formed_def list_index_in_range cell_append_def)

lemma append_values_to_column_wf:
  assumes "well_formed e" "0 \<le> c" "c < column_count e"
  shows "append_values_to_column e c vs =
           Inr (e\<lparr>cell_values := (cell_values e)[nat c := foldl cell_append (cell_values e ! nat c) vs]\<rparr>)"
  using assms
proof (induction vs arbitrary: e)
  case Nil
  then show ?case by (simp add: append_values_to_column_def)
next
  case (Cons v vs)
  let ?e' = "e\<lparr>cell_values := (cell_values e)[nat c := cell_append (cell_values e ! nat c) v]\<rparr>"
  have wf': "well_formed ?e'" and cc: "c < column_count ?e'"
    using Cons.prems by (simp_all add: well_formed_def)
  have k: "nat c < length (cell_values e)"
    using Cons.prems by (simp add: well_formed_def)
  have "append_values_to_column e c (v # vs) = append_values_to_column ?e' c vs"
    using append_value_to_column_wf [OF Cons.prems, of v]
    by (simp add: append_values_to_column_def)
  also have "\<dots> = Inr (?e'\<lparr>cell_values := (cell_values ?e')[nat c := foldl cell_append (cell_values ?e' ! nat c) vs]\<rparr>)"
    by (rule Cons.IH [OF wf' Cons.prems(2) cc])
  finally show ?case using k by simp
qed

section \<open>Entry: single-column operations\<close>

lemma get_values_from_column_wf:
  assumes "well_formed e" "0 \<le> c" "c < column_count e"
  shows "get_values_from_column e c = Inr (cell_values e ! nat c)"
  using assms
  by (simp add: get_values_from_column_def list_getitem_def well_formed_def
      list_index_in_range dict_keys_def)

lemma set_value_at_column_wf:
  assumes "well_formed e" "0 \<le> c" "c < column_count e" "v \<noteq> ''''"
  shows "set_value_at_column e c v = Inr (e\<lparr>cell_values := (cell_values e)[nat c := [v]]\<rparr>)"
  using assms
  by (simp add: set_value_at_column_def well_formed_def list_index_in_range
      dict_update_def dict_clear_def)

lemma cell_append_idem: "cell_append (cell_append d v) v = cell_append d v"
  by (simp add: cell_append_def dict_update_def)

text \<open>
  C7. Appending a non-empty value to an in-range column a second time changes nothing:
  the entry after the second call is the entry after the first, so the column holds the
  same values in the same order.
\<close>

theorem append_value_idempotent:
  assumes "well_formed e" and "0 \<le> c" and "c < column_count e" and "v \<noteq> ''''"
  shows "\<exists>e1. append_value_to_column e c v = Inr e1
             \<and> append_value_to_column e1 c v = Inr e1
             \<and> get_values_from_column e1 c = Inr (cell_append (cell_values e ! nat c) v)"
proof -
  let ?e1 = "e\<lparr>cell_values := (cell_values e)[nat c := cell_append (cell_values e ! nat c) v]\<rparr>"
  have k: "nat c < length (cell_values e)"
    using assms by (simp add: well_formed_def)
  have wf1: "well_formed ?e1" and c1: "c < column_count ?e1"
    using assms by (simp_all add: well_formed_def)
  have once: "append_value_to_column e c v = Inr ?e1"
    by (rule append_value_to_column_wf [OF assms(1-3)])
  have twice: "append_value_to_column ?e1 c v = Inr ?e1"
    using append_value_to_column_wf [OF wf1 assms(2) c1, of v] k
    by (simp add: cell_append_idem)
  have vals: "get_values_from_column ?e1 c = Inr (cell_append (cell_values e ! nat c) v)"
    using get_values_from_column_wf [OF wf1 assms(2) c1] k by simp
  from once twice vals show ?thesis by blast
qed

text \<open>
  C6. For an in-range column, \<open>set_value_at_column\<close> with a non-empty value leaves
  exactly that value in the column, as \<open>get_values_from_column\<close> then shows; with the
  empty string it returns the entry unchanged.
\<close>

theorem set_value_postcondition:
  assumes "well_formed e" and "0 \<le> c" and "c < column_count e"
  shows "(v \<noteq> '''' \<longrightarrow>
            (\<exists>e'. set_value_at_column e c v = Inr e' \<and> get_values_from_column e' c = Inr [v]))
       \<and> (v = '''' \<longrightarrow> set_value_at_column e c v = Inr e)"
proof (intro conjI impI)
  assume v: "v \<noteq> ''''"
  let ?e' = "e\<lparr>cell_values := (cell_values e)[nat c := [v]]\<rparr>"
  have k: "nat c < length (cell_values e)"
    using assms by (simp add: well_formed_def)
  have wf': "well_formed ?e'" and c': "c < column_count ?e'"
    using assms by (simp_all add: well_formed_def)
  have "set_value_at_column e c v = Inr ?e'"
    by (rule set_value_at_column_wf [OF assms v])
  moreover have "get_values_from_column ?e' c = Inr [v]"
    using get_values_from_column_wf [OF wf' assms(2) c'] k by simp
  ultimately show "\<exists>e'. set_value_at_column e c v = Inr e' \<and> get_values_from_column e' c = Inr [v]"
    by blast
next
  assume "v = ''''"
  then show "set_value_at_column e c v = Inr e"
    by (simp add: set_value_at_column_def)
qed

text \<open>
  C9. \<open>get_values_from_column\<close> has no bounds check: with \<open>n\<close> columns an index
  \<open>i\<close> with \<open>-n \<le> i < 0\<close> reads column \<open>n + i\<close>, and the call raises
  \<open>IndexError\<close> exactly when \<open>i \<ge> n\<close> or \<open>i < -n\<close>. The guarded methods
  treat every negative index as out of range: the two mutators do nothing and
  \<open>get_value_str_from_column\<close> returns the empty string.
\<close>

theorem column_access_bounds_asymmetry:
  assumes "well_formed e"
  shows "(- column_count e \<le> i \<and> i < 0 \<longrightarrow>
            get_values_from_column e i = Inr (cell_values e ! nat (column_count e + i)))
       \<and> (get_values_from_column e i = Inl IndexError \<longleftrightarrow> (column_count e \<le> i \<or> i < - column_count e))
       \<and> (i < 0 \<longrightarrow> append_value_to_column e i v = Inr e
                  \<and> set_value_at_column e i v = Inr e
                  \<and> get_value_str_from_column e i sep = Inr '''')"
  using assms
  by (auto simp add: get_values_from_column_def list_getitem_def list_index_def Let_def
      well_formed_def dict_keys_def append_value_to_column_def set_value_at_column_def
      get_value_str_from_column_def add.commute)

subsection \<open>The properties at a concrete entry\<close>

theorem append_value_idempotent_witness:
  "well_formed ex_entry \<and> (0::int) \<le> 0 \<and> 0 < column_count ex_entry \<and> ''b'' \<noteq> ''''
   \<and> (\<exists>e1. append_value_to_column ex_entry 0 ''b'' = Inr e1
           \<and> append_value_to_column e1 0 ''b'' = Inr e1
           \<and> get_values_from_column e1 0 = Inr [''a'', ''b''])"
proof -
  have h1: "well_formed ex_entry" by (simp add: well_formed_def ex_entry_def)
  have h2: "(0::int) \<le> 0" by simp
  have h3: "0 < column_count ex_entry" by (simp add: ex_entry_def)
  have h4: "''b'' \<noteq> ''''" by simp
  have v: "cell_append (cell_values ex_entry ! nat 0) ''b'' = [''a'', ''b'']"
    by (simp add: ex_entry_def cell_append_def dict_update_def)
  show ?thesis
    using append_value_idempotent [OF h1 h2 h3 h4] h1 h3 unfolding v by simp
qed

theorem set_value_postcondition_witness:
  "well_formed ex_entry \<and> (0::int) \<le> 0 \<and> 0 < column_count ex_entry \<and> ''b'' \<noteq> ''''
   \<and> (\<exists>e'. set_value_at_column ex_entry 0 ''b'' = Inr e' \<and> get_values_from_column e' 0 = Inr [''b''])
   \<and> set_value_at_column ex_entry 0 '''' = Inr ex_entry"
proof -
  have h1: "well_formed ex_entry" by (simp add: well_formed_def ex_entry_def)
  have h2: "(0::int) \<le> 0" by simp
  have h3: "0 < column_count ex_entry" by (simp add: ex_entry_def)
  show ?thesis
    using set_value_postcondition [OF h1 h2 h3, of "''b''"]
      set_value_postcondition [OF h1 h2 h3, of "''''"] h1 h3 by simp
qed

theorem column_access_bounds_asymmetry_witness:
  "well_formed ex_entry \<and> - column_count ex_entry \<le> - 1 \<and> (- 1 :: int) < 0
   \<and> get_values_from_column ex_entry (- 1) = Inr []
   \<and> get_values_from_column ex_entry (- 2) = Inr [''a'']
   \<and> get_values_from_column ex_entry 2 = Inl IndexError
   \<and> get_values_from_column ex_entry (- 3) = Inl IndexError
   \<and> append_value_to_column ex_entry (- 1) ''b'' = Inr ex_entry
   \<and> set_value_at_column ex_entry (- 1) ''b'' = Inr ex_entry
   \<and> get_value_str_from_column ex_entry (- 1) '', '' = Inr ''''"
proof -
  have h1: "well_formed ex_entry" by (simp add: well_formed_def ex_entry_def)
  have cc: "column_count ex_entry = 2" and cv: "cell_values ex_entry = [[''a''], []]"
    by (simp_all add: ex_entry_def)
  show ?thesis
    using column_access_bounds_asymmetry [OF h1, of "- 1" "''b''" "'', ''"]
      column_access_bounds_asymmetry [OF h1, of "- 2"]
      column_access_bounds_asymmetry [OF h1, of "2"]
      column_access_bounds_asymmetry [OF h1, of "- 3"] h1
    by (simp add: cc cv)
qed

section \<open>Entry: deep copy and merge\<close>

lemma py_range_Suc: "py_range (int (Suc n)) = py_range (int n) @ [int n]"
  by (simp add: py_range_def del: of_nat_Suc)

lemma py_range_0: "py_range 0 = []"
  by (simp add: py_range_def)

lemma get_values_from_column_nth:
  "k < length (cell_values e) \<Longrightarrow> get_values_from_column e (int k) = Inr (cell_values e ! k)"
  by (simp add: get_values_from_column_def list_getitem_def list_index_in_range dict_keys_def)

lemma merge_columns_0: "merge_columns 0 src m = m"
  by (simp add: merge_columns_def map_nth)

lemma merge_columns_simps:
  "column_count (merge_columns n src m) = column_count m"
  "length (cell_values (merge_columns n src m)) = length (cell_values m)"
  "well_formed (merge_columns n src m) = well_formed m"
  by (simp_all add: merge_columns_def well_formed_def)

lemma merge_columns_nth:
  "k < length (cell_values m) \<Longrightarrow>
   cell_values (merge_columns n src m) ! k =
     (if k < n then foldl cell_append (cell_values m ! k) (cell_values src ! k)
      else cell_values m ! k)"
  by (simp add: merge_columns_def)

lemma merge_columns_Suc:
  assumes "n < length (cell_values m)"
  shows "(merge_columns n src m)\<lparr>cell_values :=
            (cell_values (merge_columns n src m))
              [n := foldl cell_append (cell_values (merge_columns n src m) ! n) (cell_values src ! n)]\<rparr>
         = merge_columns (Suc n) src m"
proof -
  have "(cell_values (merge_columns n src m))
          [n := foldl cell_append (cell_values (merge_columns n src m) ! n) (cell_values src ! n)]
        = cell_values (merge_columns (Suc n) src m)"
    using assms
    by (intro nth_equalityI) (auto simp add: merge_columns_simps merge_columns_nth nth_list_update)
  then show ?thesis
    by (simp add: merge_columns_def)
qed

lemma column_loop:
  assumes "well_formed m" and "n \<le> length (cell_values m)" and "n \<le> length (cell_values src)"
  shows "foldM (\<lambda>merged column_index.
                  bind (get_values_from_column src column_index)
                    (\<lambda>column_values. append_values_to_column merged column_index column_values))
           m (py_range (int n)) = Inr (merge_columns n src m)"
  using assms(2,3)
proof (induction n)
  case 0
  then show ?case by (simp add: py_range_0 merge_columns_0)
next
  case (Suc n)
  let ?m = "merge_columns n src m"
  have wf: "well_formed ?m"
    using assms(1) by (simp add: merge_columns_simps)
  have cc: "int n < column_count ?m"
    using Suc.prems assms(1) by (simp add: merge_columns_simps well_formed_def)
  have src: "get_values_from_column src (int n) = Inr (cell_values src ! n)"
    using Suc.prems by (simp add: get_values_from_column_nth)
  have step: "append_values_to_column ?m (int n) (cell_values src ! n) = Inr (merge_columns (Suc n) src m)"
    using append_values_to_column_wf [OF wf _ cc, of "cell_values src ! n"] Suc.prems
    by (simp add: merge_columns_Suc)
  from Suc show ?case
    by (simp add: py_range_Suc foldM_append src step del: of_nat_Suc)
qed

lemma Entry_init_length:
  "0 \<le> n \<Longrightarrow> Entry_init n (Some []) = \<lparr>column_count = n, cell_values = replicate (nat n) []\<rparr>"
  by (simp add: Entry_init_def)

lemma get_deep_copy_wf:
  assumes "well_formed e"
  shows "get_deep_copy e =
           Inr \<lparr>column_count = column_count e,
                cell_values = map (foldl cell_append []) (cell_values e)\<rparr>"
proof -
  let ?n = "length (cell_values e)"
  let ?init = "\<lparr>column_count = int ?n, cell_values = replicate ?n []\<rparr>"
  have cc: "column_count e = int ?n"
    using assms by (simp add: well_formed_def)
  have init: "Entry_init (column_count e) (Some []) = ?init"
    by (simp add: cc Entry_init_length)
  have wf: "well_formed ?init"
    by (simp add: well_formed_def)
  have "get_deep_copy e = Inr (merge_columns ?n e ?init)"
    unfolding get_deep_copy_def init
    using column_loop [OF wf, of ?n e] by (simp add: cc)
  moreover have "cell_values (merge_columns ?n e ?init) = map (foldl cell_append []) (cell_values e)"
    by (intro nth_equalityI) (simp_all add: merge_columns_simps merge_columns_nth)
  moreover have "column_count (merge_columns ?n e ?init) = column_count e"
    by (simp add: merge_columns_simps cc)
  ultimately show ?thesis
    by (simp add: merge_columns_def)
qed

lemma cell_append_fresh:
  "v \<noteq> '''' \<Longrightarrow> v \<notin> set d \<Longrightarrow> cell_append d v = d @ [v]"
  by (simp add: cell_append_def dict_update_def)

lemma foldl_cell_append_ok:
  "cell_ok (p @ d) \<Longrightarrow> foldl cell_append p d = p @ d"
proof (induction d arbitrary: p)
  case Nil
  then show ?case by simp
next
  case (Cons v d)
  have v: "v \<noteq> ''''" "v \<notin> set p"
    using Cons.prems by (auto simp add: cell_ok_def)
  have "cell_ok ((p @ [v]) @ d)"
    using Cons.prems by simp
  then have "foldl cell_append (p @ [v]) d = (p @ [v]) @ d"
    by (rule Cons.IH)
  then show ?case
    by (simp add: cell_append_fresh v)
qed

lemma get_deep_copy_ok:
  assumes "entry_ok e"
  shows "get_deep_copy e = Inr e"
proof -
  have wf: "well_formed e" and cells: "list_all cell_ok (cell_values e)"
    using assms by (simp_all add: entry_ok_def)
  have "map (foldl cell_append []) (cell_values e) = cell_values e"
    using cells foldl_cell_append_ok [of "[]"]
    by (intro map_idI) (simp add: list_all_iff)
  then show ?thesis
    by (simp add: get_deep_copy_wf [OF wf])
qed

lemma cell_append_ok: "cell_ok d \<Longrightarrow> cell_ok (cell_append d v)"
  by (simp add: cell_ok_def cell_append_def dict_update_def)

lemma foldl_cell_append_preserves: "cell_ok d \<Longrightarrow> cell_ok (foldl cell_append d vs)"
  by (induction vs arbitrary: d) (simp_all add: cell_append_ok)

text \<open>The loop of \<open>merge_entries\<close> over the other entries, from any well-formed start.\<close>

lemma merge_loop:
  assumes "list_all well_formed es" and "well_formed m"
    and "length (cell_values m) = nat w" and "0 \<le> w"
  shows "\<exists>r. foldM (\<lambda>merged entry.
                  foldM (\<lambda>merged column_index.
                           bind (get_values_from_column entry column_index)
                             (\<lambda>column_values. append_values_to_column merged column_index column_values))
                    merged (py_range (min w (column_count entry))))
                m es = Inr r
          \<and> column_count r = column_count m
          \<and> length (cell_values r) = length (cell_values m)
          \<and> (\<forall>i < length (cell_values m).
                cell_values r ! i = foldl cell_append (cell_values m ! i) (merged_values es i))"
  using assms
proof (induction es arbitrary: m)
  case Nil
  then show ?case by (simp add: merged_values_def)
next
  case (Cons entry es)
  let ?n = "nat (min w (column_count entry))"
  let ?m = "merge_columns ?n entry m"
  have wf_entry: "well_formed entry" and wf_es: "list_all well_formed es"
    using Cons.prems(1) by simp_all
  have n_m: "?n \<le> length (cell_values m)"
    using Cons.prems(3) by simp
  have n_entry: "?n \<le> length (cell_values entry)"
    using wf_entry by (simp add: well_formed_def)
  have range_eq: "py_range (min w (column_count entry)) = py_range (int ?n)"
    by (simp only: py_range_def nat_int)
  have inner: "foldM (\<lambda>merged column_index.
                        bind (get_values_from_column entry column_index)
                          (\<lambda>column_values. append_values_to_column merged column_index column_values))
                 m (py_range (min w (column_count entry))) = Inr ?m"
    unfolding range_eq by (rule column_loop [OF Cons.prems(2) n_m n_entry])
  have wf': "well_formed ?m" and len': "length (cell_values ?m) = nat w"
    using Cons.prems(2,3) by (simp_all add: merge_columns_simps)
  obtain r where r: "foldM (\<lambda>merged entry.
                  foldM (\<lambda>merged column_index.
                           bind (get_values_from_column entry column_index)
                             (\<lambda>column_values. append_values_to_column merged column_index column_values))
                    merged (py_range (min w (column_count entry))))
                ?m es = Inr r"
    and r_cc: "column_count r = column_count ?m"
    and r_len: "length (cell_values r) = length (cell_values ?m)"
    and r_nth: "\<forall>i < length (cell_values ?m).
                cell_values r ! i = foldl cell_append (cell_values ?m ! i) (merged_values es i)"
    using Cons.IH [OF wf_es wf' len' Cons.prems(4)] by blast
  have nth: "cell_values r ! i = foldl cell_append (cell_values m ! i) (merged_values (entry # es) i)"
    if i: "i < length (cell_values m)" for i
  proof -
    have "cell_values r ! i = foldl cell_append (cell_values ?m ! i) (merged_values es i)"
      using r_nth i by (simp add: merge_columns_simps)
    moreover have "i < ?n \<longleftrightarrow> int i < column_count entry"
      using i Cons.prems(3,4) by auto
    ultimately show ?thesis
      using i by (simp add: merge_columns_nth merged_values_def)
  qed
  show ?case
    using inner r r_cc r_len nth by (simp add: merge_columns_simps)
qed

lemma merge_entries_wf:
  assumes "well_formed self" and "list_all well_formed others"
  shows "\<exists>copy merged.
           get_deep_copy self = Inr copy
         \<and> merge_entries self (Some others) = Inr merged
         \<and> well_formed copy \<and> well_formed merged
         \<and> column_count copy = column_count self
         \<and> cell_values copy = map (foldl cell_append []) (cell_values self)
         \<and> column_count merged = column_count self
         \<and> length (cell_values merged) = length (cell_values self)
         \<and> (\<forall>i < length (cell_values self).
               cell_values merged ! i = foldl cell_append (cell_values copy ! i) (merged_values others i))"
proof -
  let ?copy = "\<lparr>column_count = column_count self,
                 cell_values = map (foldl cell_append []) (cell_values self)\<rparr>"
  have copy: "get_deep_copy self = Inr ?copy"
    by (rule get_deep_copy_wf [OF assms(1)])
  have wf_copy: "well_formed ?copy"
    using assms(1) by (simp add: well_formed_def)
  have len: "length (cell_values ?copy) = nat (column_count self)"
    using assms(1) by (simp add: well_formed_def)
  have nonneg: "0 \<le> column_count self"
    using assms(1) by (simp add: well_formed_def)
  obtain r where r: "foldM (\<lambda>merged entry.
                  foldM (\<lambda>merged column_index.
                           bind (get_values_from_column entry column_index)
                             (\<lambda>column_values. append_values_to_column merged column_index column_values))
                    merged (py_range (min (column_count self) (column_count entry))))
                ?copy others = Inr r"
    and r_cc: "column_count r = column_count ?copy"
    and r_len: "length (cell_values r) = length (cell_values ?copy)"
    and r_nth: "\<forall>i < length (cell_values ?copy).
                cell_values r ! i = foldl cell_append (cell_values ?copy ! i) (merged_values others i)"
    using merge_loop [OF assms(2) wf_copy len nonneg] by blast
  have merged: "merge_entries self (Some others) = Inr r"
  proof (cases others)
    case Nil
    then have "r = ?copy" using r by simp
    then show ?thesis by (simp add: merge_entries_def copy Nil)
  next
    case (Cons a list)
    then show ?thesis using r by (simp add: merge_entries_def copy)
  qed
  have wf_r: "well_formed r"
    using r_cc r_len wf_copy by (simp add: well_formed_def)
  show ?thesis
    using copy merged wf_copy wf_r r_cc r_len r_nth by simp
qed

lemma list3_nth:
  "length xs = 3 \<Longrightarrow> xs ! 0 = a \<Longrightarrow> xs ! 1 = b \<Longrightarrow> xs ! 2 = c \<Longrightarrow> xs = [a, b, c]"
  by (auto simp add: numeral_3_eq_3 numeral_2_eq_2 length_Suc_conv)

text \<open>
  The values of the result of \<open>merge_entries\<close>, for entries taken as values: the
  width of \<open>self\<close>, and in column \<open>i\<close> the deep copy's column to which the values of
  column \<open>i\<close> of every other entry that has more than \<open>i\<close> columns were appended.
\<close>

lemma merge_entries_values:
  assumes "well_formed self" and "list_all well_formed others"
  shows "\<exists>copy merged.
           get_deep_copy self = Inr copy
         \<and> merge_entries self (Some others) = Inr merged
         \<and> column_count merged = column_count self
         \<and> length (cell_values merged) = length (cell_values self)
         \<and> (\<forall>i < length (cell_values self).
               cell_values merged ! i = foldl cell_append (cell_values copy ! i) (merged_values others i))
         \<and> (\<forall>i < length (cell_values self).
               (\<forall>other \<in> set others. column_count other \<le> int i) \<longrightarrow>
               cell_values merged ! i = cell_values copy ! i)
         \<and> (others = [] \<longrightarrow> merged = copy)
         \<and> merge_entries self None = Inr copy
         \<and> (entry_ok self \<longrightarrow> copy = self)"
proof -
  obtain copy merged where copy: "get_deep_copy self = Inr copy"
    and merged: "merge_entries self (Some others) = Inr merged"
    and cc: "column_count merged = column_count self"
    and len: "length (cell_values merged) = length (cell_values self)"
    and nth: "\<forall>i < length (cell_values self).
               cell_values merged ! i = foldl cell_append (cell_values copy ! i) (merged_values others i)"
    using merge_entries_wf [OF assms] by blast
  have untouched: "cell_values merged ! i = cell_values copy ! i"
    if "i < length (cell_values self)" and "\<forall>other \<in> set others. column_count other \<le> int i" for i
  proof -
    have "filter (\<lambda>other. int i < column_count other) others = []"
      using that(2) by (auto simp add: filter_empty_conv)
    then have "merged_values others i = []"
      by (simp add: merged_values_def)
    then show ?thesis using nth that(1) by simp
  qed
  have empty: "merged = copy" if "others = []"
    using merged copy that by (simp add: merge_entries_def)
  have none: "merge_entries self None = Inr copy"
    using copy by (simp add: merge_entries_def)
  have same: "copy = self" if "entry_ok self"
    using get_deep_copy_ok [OF that] copy by simp
  show ?thesis
    using copy merged cc len nth untouched empty none same by blast
qed

subsection \<open>The merge on the store\<close>

lemma foldM_cong_set:
  "(\<And>s x. x \<in> set xs \<Longrightarrow> f s x = g s x) \<Longrightarrow> foldM f s xs = foldM g s xs"
  by (induction xs arbitrary: s) (auto split: sum.splits)

lemma foldM_map: "foldM f s (map g xs) = foldM (\<lambda>s x. f s (g x)) s xs"
  by (induction xs arbitrary: s) (auto split: sum.splits)

lemma append_values_to_column_in_value:
  assumes "d < length h"
  shows "append_values_to_column_in h d c vs
         = bind (append_values_to_column (h ! d) c vs) (\<lambda>e. Inr (h[d := e]))"
  using assms
proof (induction vs arbitrary: h)
  case Nil
  then show ?case
    by (simp add: append_values_to_column_in_def append_values_to_column_def)
next
  case (Cons v vs)
  show ?case
  proof (cases "append_value_to_column (h ! d) c v")
    case (Inl err)
    then show ?thesis
      by (simp add: append_values_to_column_in_def append_values_to_column_def
          append_value_to_column_in_def)
  next
    case (Inr e)
    have "append_values_to_column_in (h[d := e]) d c vs
          = bind (append_values_to_column ((h[d := e]) ! d) c vs) (\<lambda>e'. Inr (h[d := e, d := e']))"
      using Cons.IH [of "h[d := e]"] Cons.prems by simp
    then show ?thesis
      using Inr Cons.prems
      by (simp add: append_values_to_column_in_def append_values_to_column_def
          append_value_to_column_in_def)
  qed
qed

lemma column_loop_in_value:
  assumes "d < length h" and "src \<noteq> d"
  shows "foldM (\<lambda>h' column_index.
                  bind (get_values_from_column (h' ! src) column_index)
                    (\<lambda>column_values. append_values_to_column_in h' d column_index column_values))
           h cols
         = bind (foldM (\<lambda>m column_index.
                          bind (get_values_from_column (h ! src) column_index)
                            (\<lambda>column_values. append_values_to_column m column_index column_values))
                   (h ! d) cols)
             (\<lambda>e. Inr (h[d := e]))"
  using assms(1)
proof (induction cols arbitrary: h)
  case Nil
  then show ?case by simp
next
  case (Cons c cols)
  show ?case
  proof (cases "get_values_from_column (h ! src) c")
    case (Inl err)
    then show ?thesis by simp
  next
    case vals: (Inr vs)
    show ?thesis
    proof (cases "append_values_to_column (h ! d) c vs")
      case (Inl err)
      then show ?thesis
        using vals Cons.prems by (simp add: append_values_to_column_in_value)
    next
      case (Inr e)
      have len: "d < length (h[d := e])" using Cons.prems by simp
      have src: "(h[d := e]) ! src = h ! src" using assms(2) by simp
      show ?thesis
        using vals Inr Cons.prems Cons.IH [OF len]
        by (simp add: append_values_to_column_in_value src)
    qed
  qed
qed

lemma get_deep_copy_in_value:
  assumes "self < length h"
  shows "get_deep_copy_in h self = bind (get_deep_copy (h ! self)) (\<lambda>c. Inr (h @ [c], length h))"
proof -
  let ?init = "Entry_init (column_count (h ! self)) (Some [])"
  let ?h0 = "h @ [?init]"
  have d: "length h < length ?h0" and ne: "self \<noteq> length h"
    using assms by simp_all
  have self0: "?h0 ! self = h ! self"
    using assms by (simp add: nth_append)
  have upd: "?h0[length h := e] = h @ [e]" for e
    by simp
  show ?thesis
    unfolding get_deep_copy_in_def Entry_new_def get_deep_copy_def
    using column_loop_in_value [OF d ne, of "py_range (column_count (h ! self))"]
    by (cases "foldM (\<lambda>m column_index.
                          bind (get_values_from_column (h ! self) column_index)
                            (\<lambda>column_values. append_values_to_column m column_index column_values))
                   ?init (py_range (column_count (h ! self)))")
      (simp_all add: self0 upd)
qed

lemma merge_loop_in_value:
  assumes "d < length h" and "self \<noteq> d" and "\<forall>r \<in> set es. r \<noteq> d"
  shows "foldM (\<lambda>h' entry.
                  foldM (\<lambda>h'' column_index.
                           bind (get_values_from_column (h'' ! entry) column_index)
                             (\<lambda>column_values.
                                append_values_to_column_in h'' d column_index column_values))
                    h' (py_range (min (column_count (h' ! self)) (column_count (h' ! entry)))))
           h es
         = bind (foldM (\<lambda>m entry.
                          foldM (\<lambda>m column_index.
                                   bind (get_values_from_column (h ! entry) column_index)
                                     (\<lambda>column_values.
                                        append_values_to_column m column_index column_values))
                            m (py_range (min (column_count (h ! self)) (column_count (h ! entry)))))
                   (h ! d) es)
             (\<lambda>m. Inr (h[d := m]))"
  using assms(1,3)
proof (induction es arbitrary: h)
  case Nil
  then show ?case by simp
next
  case (Cons entry es)
  have entry: "entry \<noteq> d" and rest: "\<forall>r \<in> set es. r \<noteq> d"
    using Cons.prems(2) by simp_all
  let ?inner = "foldM (\<lambda>m column_index.
                         bind (get_values_from_column (h ! entry) column_index)
                           (\<lambda>column_values. append_values_to_column m column_index column_values))
                  (h ! d) (py_range (min (column_count (h ! self)) (column_count (h ! entry))))"
  have first: "foldM (\<lambda>h'' column_index.
                        bind (get_values_from_column (h'' ! entry) column_index)
                          (\<lambda>column_values.
                             append_values_to_column_in h'' d column_index column_values))
                 h (py_range (min (column_count (h ! self)) (column_count (h ! entry))))
               = bind ?inner (\<lambda>e. Inr (h[d := e]))"
    by (rule column_loop_in_value [OF Cons.prems(1) entry])
  show ?case
  proof (cases ?inner)
    case (Inl err)
    then show ?thesis using first by simp
  next
    case (Inr e)
    have len: "d < length (h[d := e])" using Cons.prems(1) by simp
    have same: "(h[d := e]) ! r = h ! r" if "r \<noteq> d" for r
      using that by simp
    have vals_eq: "foldM (\<lambda>m entry.
                          foldM (\<lambda>m column_index.
                                   bind (get_values_from_column ((h[d := e]) ! entry) column_index)
                                     (\<lambda>column_values.
                                        append_values_to_column m column_index column_values))
                            m (py_range (min (column_count ((h[d := e]) ! self))
                                          (column_count ((h[d := e]) ! entry)))))
                   e es
                = foldM (\<lambda>m entry.
                          foldM (\<lambda>m column_index.
                                   bind (get_values_from_column (h ! entry) column_index)
                                     (\<lambda>column_values.
                                        append_values_to_column m column_index column_values))
                            m (py_range (min (column_count (h ! self)) (column_count (h ! entry)))))
                   e es"
      using rest assms(2) by (intro foldM_cong_set) (simp add: same)
    show ?thesis
      using first Inr Cons.IH [OF len rest] Cons.prems(1)
      by (simp add: vals_eq)
  qed
qed

lemma merge_entries_in_value:
  assumes "self < length h" and "\<forall>r \<in> set es. r < length h"
  shows "merge_entries_in h self (Some es)
         = bind (merge_entries (h ! self) (Some (map (\<lambda>r. h ! r) es)))
             (\<lambda>m. Inr (h @ [m], length h))"
    and "merge_entries_in h self None
         = bind (merge_entries (h ! self) None) (\<lambda>m. Inr (h @ [m], length h))"
proof -
  show "merge_entries_in h self None
         = bind (merge_entries (h ! self) None) (\<lambda>m. Inr (h @ [m], length h))"
    by (cases "get_deep_copy (h ! self)")
      (simp_all add: merge_entries_in_def merge_entries_def get_deep_copy_in_value [OF assms(1)])
  show "merge_entries_in h self (Some es)
         = bind (merge_entries (h ! self) (Some (map (\<lambda>r. h ! r) es)))
             (\<lambda>m. Inr (h @ [m], length h))"
  proof (cases "get_deep_copy (h ! self)")
    case (Inl err)
    then show ?thesis
      by (simp add: merge_entries_in_def merge_entries_def get_deep_copy_in_value [OF assms(1)])
  next
    case (Inr c)
    let ?h1 = "h @ [c]"
    have d: "length h < length ?h1" and ne: "self \<noteq> length h"
      and others: "\<forall>r \<in> set es. r \<noteq> length h"
      using assms by auto
    have same: "?h1 ! r = h ! r" if "r < length h" for r
      using that by (simp add: nth_append)
    have vals_eq: "foldM (\<lambda>m entry.
                          foldM (\<lambda>m column_index.
                                   bind (get_values_from_column (?h1 ! entry) column_index)
                                     (\<lambda>column_values.
                                        append_values_to_column m column_index column_values))
                            m (py_range (min (column_count (?h1 ! self)) (column_count (?h1 ! entry)))))
                   c es
                = foldM (\<lambda>m entry.
                          foldM (\<lambda>m column_index.
                                   bind (get_values_from_column (h ! entry) column_index)
                                     (\<lambda>column_values.
                                        append_values_to_column m column_index column_values))
                            m (py_range (min (column_count (h ! self)) (column_count (h ! entry)))))
                   c es"
      using assms by (intro foldM_cong_set) (simp add: same)
    have loop: "foldM (\<lambda>h' entry.
                  foldM (\<lambda>h'' column_index.
                           bind (get_values_from_column (h'' ! entry) column_index)
                             (\<lambda>column_values.
                                append_values_to_column_in h'' (length h) column_index column_values))
                    h' (py_range (min (column_count (h' ! self)) (column_count (h' ! entry)))))
           ?h1 es
         = bind (foldM (\<lambda>m entry.
                          foldM (\<lambda>m column_index.
                                   bind (get_values_from_column (h ! entry) column_index)
                                     (\<lambda>column_values.
                                        append_values_to_column m column_index column_values))
                            m (py_range (min (column_count (h ! self)) (column_count (h ! entry)))))
                   c es)
             (\<lambda>m. Inr (h @ [m]))"
      using merge_loop_in_value [OF d ne others] by (simp add: vals_eq)
    show ?thesis
    proof (cases es)
      case Nil
      then show ?thesis
        using Inr
        by (simp add: merge_entries_in_def merge_entries_def get_deep_copy_in_value [OF assms(1)])
    next
      case (Cons r rs)
      then have nonempty: "length es \<noteq> 0" by simp
      show ?thesis
        using Inr nonempty loop
        by (cases "foldM (\<lambda>m entry.
                          foldM (\<lambda>m column_index.
                                   bind (get_values_from_column (h ! entry) column_index)
                                     (\<lambda>column_values.
                                        append_values_to_column m column_index column_values))
                            m (py_range (min (column_count (h ! self)) (column_count (h ! entry)))))
                   c es")
          (simp_all add: merge_entries_in_def merge_entries_def
            get_deep_copy_in_value [OF assms(1)] foldM_map)
    qed
  qed
qed

text \<open>
  C2. \<open>merge_entries\<close> leaves every object of the store as it was, \<open>self\<close> and the
  other entries included, and returns a new object, put at the end of the store. This
  object has the width of \<open>self\<close>. Its column \<open>i\<close> is column \<open>i\<close> of the deep copy
  of \<open>self\<close> to which the values of column \<open>i\<close> of every other entry that has more
  than \<open>i\<close> columns were appended, entry by entry and in each entry's insertion
  order, under the rules of \<open>cell_append\<close>; a column that no other entry reaches is the
  deep copy's column. With no other entries (an empty list or \<open>None\<close>) the result is
  what \<open>get_deep_copy\<close> returns: a new object whose columns hold the values of
  \<open>self\<close>, appended one by one to empty cells, which for an entry that satisfies the
  cell invariant is an equal entry.
\<close>

theorem merge_entries_contract:
  assumes "self < length h" and "\<forall>r \<in> set others. r < length h"
    and "well_formed (h ! self)" and "\<forall>r \<in> set others. well_formed (h ! r)"
  shows "\<exists>copy merged.
           get_deep_copy_in h self = Inr (h @ [copy], length h)
         \<and> column_count copy = column_count (h ! self)
         \<and> cell_values copy = map (foldl cell_append []) (cell_values (h ! self))
         \<and> (entry_ok (h ! self) \<longrightarrow> copy = h ! self)
         \<and> merge_entries_in h self (Some others) = Inr (h @ [merged], length h)
         \<and> column_count merged = column_count (h ! self)
         \<and> length (cell_values merged) = length (cell_values (h ! self))
         \<and> (\<forall>i < length (cell_values (h ! self)).
               cell_values merged ! i
               = foldl cell_append (cell_values copy ! i) (merged_values (map (\<lambda>r. h ! r) others) i))
         \<and> (\<forall>i < length (cell_values (h ! self)).
               (\<forall>r \<in> set others. column_count (h ! r) \<le> int i) \<longrightarrow>
               cell_values merged ! i = cell_values copy ! i)
         \<and> (others = [] \<longrightarrow> merged = copy)
         \<and> merge_entries_in h self None = Inr (h @ [copy], length h)"
proof -
  have wfs: "list_all well_formed (map (\<lambda>r. h ! r) others)"
    using assms(4) by (simp add: list_all_iff)
  obtain copy merged where copy: "get_deep_copy (h ! self) = Inr copy"
    and merged: "merge_entries (h ! self) (Some (map (\<lambda>r. h ! r) others)) = Inr merged"
    and cc: "column_count merged = column_count (h ! self)"
    and len: "length (cell_values merged) = length (cell_values (h ! self))"
    and nth: "\<forall>i < length (cell_values (h ! self)).
               cell_values merged ! i
               = foldl cell_append (cell_values copy ! i) (merged_values (map (\<lambda>r. h ! r) others) i)"
    and untouched: "\<forall>i < length (cell_values (h ! self)).
               (\<forall>other \<in> set (map (\<lambda>r. h ! r) others). column_count other \<le> int i) \<longrightarrow>
               cell_values merged ! i = cell_values copy ! i"
    and empty: "map (\<lambda>r. h ! r) others = [] \<longrightarrow> merged = copy"
    and none: "merge_entries (h ! self) None = Inr copy"
    and same: "entry_ok (h ! self) \<longrightarrow> copy = h ! self"
    using merge_entries_values [OF assms(3) wfs] by blast
  have copy_val: "column_count copy = column_count (h ! self)"
    "cell_values copy = map (foldl cell_append []) (cell_values (h ! self))"
    using get_deep_copy_wf [OF assms(3)] copy by auto
  have c_in: "get_deep_copy_in h self = Inr (h @ [copy], length h)"
    by (simp add: get_deep_copy_in_value [OF assms(1)] copy)
  have m_in: "merge_entries_in h self (Some others) = Inr (h @ [merged], length h)"
    by (simp add: merge_entries_in_value(1) [OF assms(1,2)] merged)
  have n_in: "merge_entries_in h self None = Inr (h @ [copy], length h)"
    by (simp add: merge_entries_in_value(2) [OF assms(1,2)] none)
  have untouched': "\<forall>i < length (cell_values (h ! self)).
               (\<forall>r \<in> set others. column_count (h ! r) \<le> int i) \<longrightarrow>
               cell_values merged ! i = cell_values copy ! i"
    using untouched by simp
  have empty': "others = [] \<longrightarrow> merged = copy"
    using empty by simp
  show ?thesis
    using c_in copy_val same m_in cc len nth untouched' empty' n_in by blast
qed

theorem merge_entries_contract_witness:
  "(0::nat) < length ex_merge_heap \<and> (1::nat) < length ex_merge_heap
   \<and> well_formed (ex_merge_heap ! 0) \<and> well_formed (ex_merge_heap ! 1)
   \<and> get_deep_copy_in ex_merge_heap 0 = Inr (ex_merge_heap @ [ex_entryA], 2)
   \<and> merge_entries_in ex_merge_heap 0 (Some [1])
       = Inr (ex_merge_heap
                @ [\<lparr>column_count = 3, cell_values = [[''a'', ''b'', ''c''], [''q''], [''z'']]\<rparr>], 2)
   \<and> merge_entries_in ex_merge_heap 0 (Some []) = Inr (ex_merge_heap @ [ex_entryA], 2)
   \<and> merge_entries_in ex_merge_heap 0 None = Inr (ex_merge_heap @ [ex_entryA], 2)"
proof -
  have len: "length ex_merge_heap = 2"
    and h0: "ex_merge_heap ! 0 = ex_entryA" and h1: "ex_merge_heap ! 1 = ex_entryB"
    by (simp_all add: ex_merge_heap_def)
  have a1: "(0::nat) < length ex_merge_heap" and a1': "(1::nat) < length ex_merge_heap"
    by (simp_all add: len)
  have a2: "\<forall>r \<in> set [1::nat]. r < length ex_merge_heap"
    and a2': "\<forall>r \<in> set ([]::nat list). r < length ex_merge_heap"
    by (simp_all add: len)
  have a3: "well_formed (ex_merge_heap ! 0)" and a3': "well_formed (ex_merge_heap ! 1)"
    by (simp_all add: ex_merge_heap_def well_formed_def ex_entryA_def ex_entryB_def)
  have a4: "\<forall>r \<in> set [1::nat]. well_formed (ex_merge_heap ! r)"
    and a4': "\<forall>r \<in> set ([]::nat list). well_formed (ex_merge_heap ! r)"
    using a3' by simp_all
  have ok: "entry_ok (ex_merge_heap ! 0)"
    by (simp add: ex_merge_heap_def entry_ok_def well_formed_def cell_ok_def ex_entryA_def)
  obtain copy merged where copy: "get_deep_copy_in ex_merge_heap 0 = Inr (ex_merge_heap @ [copy], length ex_merge_heap)"
    and same: "entry_ok (ex_merge_heap ! 0) \<longrightarrow> copy = ex_merge_heap ! 0"
    and merged: "merge_entries_in ex_merge_heap 0 (Some [1])
                 = Inr (ex_merge_heap @ [merged], length ex_merge_heap)"
    and cc: "column_count merged = column_count (ex_merge_heap ! 0)"
    and mlen: "length (cell_values merged) = length (cell_values (ex_merge_heap ! 0))"
    and nth: "\<forall>i < length (cell_values (ex_merge_heap ! 0)).
               cell_values merged ! i
               = foldl cell_append (cell_values copy ! i)
                   (merged_values (map (\<lambda>r. ex_merge_heap ! r) [1]) i)"
    and none: "merge_entries_in ex_merge_heap 0 None = Inr (ex_merge_heap @ [copy], length ex_merge_heap)"
    using merge_entries_contract [OF a1 a2 a3 a4] by blast
  have copy_eq: "copy = ex_entryA"
    using same ok h0 by simp
  have n0: "cell_values merged ! 0 = [''a'', ''b'', ''c'']"
    and n1: "cell_values merged ! 1 = [''q'']"
    and n2: "cell_values merged ! 2 = [''z'']"
    using nth
    by (simp_all add: copy_eq ex_merge_heap_def ex_entryA_def ex_entryB_def merged_values_def
        cell_append_def dict_update_def)
  have "length (cell_values merged) = 3"
    using mlen by (simp add: ex_merge_heap_def ex_entryA_def)
  then have cells: "cell_values merged = [[''a'', ''b'', ''c''], [''q''], [''z'']]"
    using n0 n1 n2 by (rule list3_nth)
  have "column_count merged = 3"
    using cc by (simp add: ex_merge_heap_def ex_entryA_def)
  with cells have m: "merged = \<lparr>column_count = 3, cell_values = [[''a'', ''b'', ''c''], [''q''], [''z'']]\<rparr>"
    by (cases merged) simp
  obtain copy' merged' where "get_deep_copy_in ex_merge_heap 0 = Inr (ex_merge_heap @ [copy'], length ex_merge_heap)"
    and "merge_entries_in ex_merge_heap 0 (Some []) = Inr (ex_merge_heap @ [merged'], length ex_merge_heap)"
    and "([] :: nat list) = [] \<longrightarrow> merged' = copy'"
    using merge_entries_contract [OF a1 a2' a3 a4'] by blast
  then have empty: "merge_entries_in ex_merge_heap 0 (Some []) = Inr (ex_merge_heap @ [ex_entryA], 2)"
    using copy copy_eq len by simp
  show ?thesis
    using a1 a1' a3 a3' copy copy_eq merged m empty none len by simp
qed

section \<open>Entry: the cell invariant\<close>

lemma entry_ok_Entry_init: "entry_ok (Entry_init len values)"
  by (auto simp add: entry_ok_def well_formed_def Entry_init_def Let_def list_all_iff cell_ok_def
      split: option.splits)

lemma entry_ok_update:
  assumes "entry_ok e" and "cell_ok d"
  shows "entry_ok (e\<lparr>cell_values := (cell_values e)[k := d]\<rparr>)"
  using assms
  by (auto simp add: entry_ok_def well_formed_def list_all_iff dest: set_update_subset_insert [THEN subsetD])

lemma entry_ok_nth: "entry_ok e \<Longrightarrow> k < length (cell_values e) \<Longrightarrow> cell_ok (cell_values e ! k)"
  by (simp add: entry_ok_def list_all_length)

lemma append_value_to_column_ok:
  assumes "entry_ok e" and "append_value_to_column e c v = Inr e'"
  shows "entry_ok e'"
proof (cases "0 \<le> c \<and> c < column_count e")
  case True
  have wf: "well_formed e" using assms(1) by (simp add: entry_ok_def)
  have k: "nat c < length (cell_values e)"
    using True wf by (auto simp add: well_formed_def)
  have "e' = e\<lparr>cell_values := (cell_values e)[nat c := cell_append (cell_values e ! nat c) v]\<rparr>"
    using append_value_to_column_wf [OF wf, of c v] True assms(2) by simp
  then show ?thesis
    using entry_ok_update [OF assms(1) cell_append_ok [OF entry_ok_nth [OF assms(1) k]]] by simp
next
  case False
  then have "e' = e"
    using assms(2) by (auto simp add: append_value_to_column_def split: if_splits)
  then show ?thesis using assms(1) by simp
qed

lemma set_value_at_column_ok:
  assumes "entry_ok e" and "set_value_at_column e c v = Inr e'"
  shows "entry_ok e'"
proof (cases "0 \<le> c \<and> c < column_count e \<and> v \<noteq> ''''")
  case True
  have wf: "well_formed e" using assms(1) by (simp add: entry_ok_def)
  have "e' = e\<lparr>cell_values := (cell_values e)[nat c := [v]]\<rparr>"
    using set_value_at_column_wf [OF wf, of c v] True assms(2) by simp
  moreover have "cell_ok [v]"
    using True by (auto simp add: cell_ok_def)
  ultimately show ?thesis
    using entry_ok_update [OF assms(1)] by simp
next
  case False
  then have "e' = e"
    using assms(2) by (auto simp add: set_value_at_column_def split: if_splits)
  then show ?thesis using assms(1) by simp
qed

lemma merge_entries_ok:
  assumes "entry_ok e" and "list_all entry_ok es" and "merge_entries e (Some es) = Inr e'"
  shows "entry_ok e'"
proof -
  have wf: "well_formed e" using assms(1) by (simp add: entry_ok_def)
  have wfs: "list_all well_formed es"
    using assms(2) by (simp add: list_all_iff entry_ok_def)
  obtain copy merged where copy: "get_deep_copy e = Inr copy"
    and merged: "merge_entries e (Some es) = Inr merged"
    and wf_merged: "well_formed merged"
    and len: "length (cell_values merged) = length (cell_values e)"
    and nth: "\<forall>i < length (cell_values e).
               cell_values merged ! i = foldl cell_append (cell_values copy ! i) (merged_values es i)"
    using merge_entries_wf [OF wf wfs] by blast
  have copy_eq: "copy = e"
    using get_deep_copy_ok [OF assms(1)] copy by simp
  have "cell_ok (cell_values merged ! i)" if "i < length (cell_values merged)" for i
    using that nth len entry_ok_nth [OF assms(1), of i]
    by (simp add: copy_eq foldl_cell_append_preserves)
  then have "list_all cell_ok (cell_values merged)"
    by (simp add: list_all_length)
  moreover have "e' = merged"
    using assms(3) merged by simp
  ultimately show ?thesis
    using wf_merged by (simp add: entry_ok_def)
qed

lemma reachable_entry_ok: "reachable e \<Longrightarrow> entry_ok e"
proof (induction rule: reachable.induct)
  case (r_init len "values")
  show ?case by (rule entry_ok_Entry_init)
next
  case (r_append e c v e')
  then show ?case by (blast intro: append_value_to_column_ok)
next
  case (r_set e c v e')
  then show ?case by (blast intro: set_value_at_column_ok)
next
  case (r_copy e e')
  then show ?case using get_deep_copy_ok by fastforce
next
  case (r_merge e es e')
  have "list_all entry_ok es"
    using r_merge.IH(2) by (simp add: list_all_iff)
  then show ?case
    using r_merge.IH(1) r_merge.hyps by (blast intro: merge_entries_ok)
next
  case (r_merge_none e e')
  then show ?case
    using get_deep_copy_ok [of e] by (simp add: merge_entries_def)
qed

text \<open>
  C3. Every entry that the public operations can produce keeps the cell invariant: no
  column holds the empty string, and no column holds a value twice. This is what
  \<open>get_values_from_column\<close> returns for any index it accepts.
\<close>

theorem reachable_cell_invariant:
  assumes "reachable e"
  shows "(\<forall>d \<in> set (cell_values e). '''' \<notin> set d \<and> distinct d)
       \<and> (\<forall>i vs. get_values_from_column e i = Inr vs \<longrightarrow> '''' \<notin> set vs \<and> distinct vs)"
proof -
  have ok: "entry_ok e"
    by (rule reachable_entry_ok [OF assms])
  then have cells: "\<forall>d \<in> set (cell_values e). '''' \<notin> set d \<and> distinct d"
    by (simp add: entry_ok_def list_all_iff cell_ok_def)
  have "'''' \<notin> set vs \<and> distinct vs" if "get_values_from_column e i = Inr vs" for i vs
  proof -
    have "\<exists>k. list_index (cell_values e) i = Inr k \<and> vs = cell_values e ! k"
    proof (cases "list_index (cell_values e) i")
      case (Inl err)
      then show ?thesis
        using that by (simp add: get_values_from_column_def list_getitem_def)
    next
      case (Inr k)
      then show ?thesis
        using that by (auto simp add: get_values_from_column_def list_getitem_def dict_keys_def)
    qed
    then obtain k where k: "list_index (cell_values e) i = Inr k" and vs: "vs = cell_values e ! k"
      by blast
    from k have "k < length (cell_values e)"
      by (auto simp add: list_index_def Let_def split: if_splits)
    then show ?thesis
      using cells vs by simp
  qed
  with cells show ?thesis by blast
qed

theorem reachable_cell_invariant_witness:
  "reachable ex_entryA
   \<and> get_values_from_column ex_entryA 0 = Inr [''a'', ''b'']
   \<and> '''' \<notin> set [''a'', ''b''] \<and> distinct [''a'', ''b'']"
proof -
  have "reachable (Entry_init 0 (Some [''a'', '''', ''z'']))"
    by (rule r_init)
  moreover have "append_value_to_column (Entry_init 0 (Some [''a'', '''', ''z''])) 0 ''b'' = Inr ex_entryA"
    by (simp add: append_value_to_column_def Entry_init_def list_index_def dict_update_def
        ex_entryA_def)
  ultimately have r: "reachable ex_entryA"
    by (rule r_append)
  have g: "get_values_from_column ex_entryA 0 = Inr [''a'', ''b'']"
    by (simp add: get_values_from_column_def list_getitem_def list_index_def dict_keys_def
        ex_entryA_def)
  show ?thesis
    using reachable_cell_invariant [OF r] r g by blast
qed

section \<open>Table\<close>

lemma list_remove_absent: "x \<notin> set xs \<Longrightarrow> list_remove xs x = Inl ValueError"
  by (induction xs) auto

lemma list_remove_first:
  "x \<notin> set xs \<Longrightarrow> list_remove (xs @ x # ys) x = Inr (xs @ ys)"
  by (induction xs) auto

text \<open>
  C4, as the code behaves. \<open>remove_entry\<close> removes the first row that is the very
  object passed in, and returns that object; the rows before it and after it stay in
  order. When the object is not a row of the table the call raises \<open>ValueError\<close>,
  and the table, which is only replaced on a normal return, keeps its rows.
\<close>

theorem remove_entry_by_identity:
  "(entry \<in> set (entries t) \<longrightarrow>
      (\<exists>before after. entries t = before @ entry # after \<and> entry \<notin> set before
         \<and> remove_entry t entry = Inr (entry, t\<lparr>entries := before @ after\<rparr>)))
   \<and> (entry \<notin> set (entries t) \<longrightarrow> remove_entry t entry = Inl ValueError)"
proof (intro conjI impI)
  assume "entry \<in> set (entries t)"
  then obtain before after where split: "entries t = before @ entry # after" "entry \<notin> set before"
    by (auto dest: split_list_first)
  then have "remove_entry t entry = Inr (entry, t\<lparr>entries := before @ after\<rparr>)"
    by (simp add: remove_entry_def list_remove_first)
  with split show "\<exists>before after. entries t = before @ entry # after \<and> entry \<notin> set before
         \<and> remove_entry t entry = Inr (entry, t\<lparr>entries := before @ after\<rparr>)"
    by blast
next
  assume "entry \<notin> set (entries t)"
  then show "remove_entry t entry = Inl ValueError"
    by (simp add: remove_entry_def list_remove_absent)
qed

theorem remove_entry_by_identity_witness:
  "remove_entry ex_table 0 = Inr (0, ex_table\<lparr>entries := []\<rparr>)
   \<and> remove_entry ex_table 1 = Inl ValueError"
  using remove_entry_by_identity [of 0 ex_table] remove_entry_by_identity [of 1 ex_table]
  by (auto simp add: ex_table_def Cons_eq_append_conv)

text \<open>
  The claim C4 as stated fails: the table's row and the argument are different objects
  with the same values, yet \<open>remove_entry\<close> removes nothing and raises.
\<close>

theorem remove_entry_value_equal_counterexample:
  "ex_heap ! 0 = ex_heap ! 1 \<and> 0 \<in> set (entries ex_table)
   \<and> remove_entry ex_table 1 = Inl ValueError"
  by (simp add: ex_heap_def ex_table_def remove_entry_def)

lemma list_index_Inl_iff:
  "list_index xs i = Inl IndexError \<longleftrightarrow> (i < - int (length xs) \<or> int (length xs) \<le> i)"
  by (auto simp add: list_index_def Let_def)

lemma list_index_Inr:
  "- int (length xs) \<le> i \<Longrightarrow> i < int (length xs) \<Longrightarrow>
   list_index xs i = Inr (nat (if i < 0 then int (length xs) + i else i))"
  by (auto simp add: list_index_def Let_def add.commute)

lemma list_index_cases:
  "list_index xs i = Inl IndexError \<or> (\<exists>k. list_index xs i = Inr k)"
  by (auto simp add: list_index_def Let_def)

text \<open>
  C5, as the code behaves. With \<open>n\<close> rows, \<open>get_entry\<close> raises \<open>IndexError\<close>
  exactly when the index is outside \<open>[-n, n)\<close>, and an index in \<open>[-n, 0)\<close> addresses
  row \<open>n + index\<close>. \<open>pop_entry\<close> and \<open>insert_entry\<close> raise \<open>OverflowError\<close> exactly
  when the index does not fit the machine's index type. For an index that fits,
  \<open>pop_entry\<close> raises \<open>IndexError\<close> exactly outside \<open>[-n, n)\<close> and otherwise returns
  the addressed row and the table without it; and \<open>insert_entry\<close> does not fail: the
  table gains one row, at the position itself for an index in \<open>[0, n]\<close>, at position
  \<open>n + index\<close> for an index in \<open>[-n, 0)\<close>, at the end for an index above \<open>n\<close> and at
  the front for an index below \<open>-n\<close>.
\<close>

theorem table_index_bounds:
  "(get_entry t i = Inl IndexError \<longleftrightarrow> (i < - get_entry_count t \<or> get_entry_count t \<le> i))
   \<and> (- get_entry_count t \<le> i \<and> i < get_entry_count t \<longrightarrow>
        get_entry t i = Inr (entries t ! nat (if i < 0 then get_entry_count t + i else i)))
   \<and> (pop_entry t i = Inl OverflowError \<longleftrightarrow> \<not> fits_ssize_t i)
   \<and> (pop_entry t i = Inl IndexError \<longleftrightarrow>
        fits_ssize_t i \<and> (i < - get_entry_count t \<or> get_entry_count t \<le> i))
   \<and> (fits_ssize_t i \<and> - get_entry_count t \<le> i \<and> i < get_entry_count t \<longrightarrow>
        (\<exists>k. k = nat (if i < 0 then get_entry_count t + i else i)
           \<and> pop_entry t i = Inr (entries t ! k, t\<lparr>entries := take k (entries t) @ drop (Suc k) (entries t)\<rparr>)))
   \<and> (insert_entry t i r = Inl OverflowError \<longleftrightarrow> \<not> fits_ssize_t i)
   \<and> (fits_ssize_t i \<longrightarrow>
        (\<exists>es. insert_entry t i r = Inr (t\<lparr>entries := es\<rparr>)
           \<and> int (length es) = get_entry_count t + 1
           \<and> (0 \<le> i \<and> i \<le> get_entry_count t \<longrightarrow>
                es = take (nat i) (entries t) @ r # drop (nat i) (entries t))
           \<and> (- get_entry_count t \<le> i \<and> i < 0 \<longrightarrow>
                es = take (nat (get_entry_count t + i)) (entries t)
                       @ r # drop (nat (get_entry_count t + i)) (entries t))
           \<and> (get_entry_count t < i \<longrightarrow> es = entries t @ [r])
           \<and> (i < - get_entry_count t \<longrightarrow> es = r # entries t)))"
proof -
  let ?n = "int (length (entries t))"
  have get_err: "get_entry t i = Inl IndexError \<longleftrightarrow> (i < - ?n \<or> ?n \<le> i)"
    by (cases "list_index (entries t) i")
      (auto simp add: get_entry_def list_getitem_def list_index_Inl_iff [symmetric]
        list_index_def Let_def split: if_splits)
  have get_ok: "get_entry t i = Inr (entries t ! nat (if i < 0 then ?n + i else i))"
    if "- ?n \<le> i" "i < ?n"
    using list_index_Inr [OF that] by (simp add: get_entry_def list_getitem_def)
  have pop_overflow: "pop_entry t i = Inl OverflowError \<longleftrightarrow> \<not> fits_ssize_t i"
    using list_index_cases [of "entries t" i]
    by (auto simp add: pop_entry_def list_pop_def)
  have pop_err: "pop_entry t i = Inl IndexError \<longleftrightarrow> fits_ssize_t i \<and> (i < - ?n \<or> ?n \<le> i)"
    using list_index_cases [of "entries t" i] list_index_Inl_iff [of "entries t" i]
    by (auto simp add: pop_entry_def list_pop_def)
  have pop_ok: "pop_entry t i
      = Inr (entries t ! nat (if i < 0 then ?n + i else i),
             t\<lparr>entries := take (nat (if i < 0 then ?n + i else i)) (entries t)
                           @ drop (Suc (nat (if i < 0 then ?n + i else i))) (entries t)\<rparr>)"
    if "fits_ssize_t i" "- ?n \<le> i" "i < ?n"
    using list_index_Inr [OF that(2,3)] that(1) by (simp add: pop_entry_def list_pop_def)
  have ins_overflow: "insert_entry t i r = Inl OverflowError \<longleftrightarrow> \<not> fits_ssize_t i"
    by (simp add: insert_entry_def list_insert_def Let_def)
  have ins_ok: "\<exists>es. insert_entry t i r = Inr (t\<lparr>entries := es\<rparr>)
           \<and> int (length es) = ?n + 1
           \<and> (0 \<le> i \<and> i \<le> ?n \<longrightarrow> es = take (nat i) (entries t) @ r # drop (nat i) (entries t))
           \<and> (- ?n \<le> i \<and> i < 0 \<longrightarrow>
                es = take (nat (?n + i)) (entries t) @ r # drop (nat (?n + i)) (entries t))
           \<and> (?n < i \<longrightarrow> es = entries t @ [r])
           \<and> (i < - ?n \<longrightarrow> es = r # entries t)"
    if "fits_ssize_t i"
    using that by (auto simp add: insert_entry_def list_insert_def Let_def add.commute)
  show ?thesis
    unfolding get_entry_count_def
    using get_err get_ok pop_overflow pop_err pop_ok ins_overflow ins_ok
    by simp
qed

lemma fits_ssize_t_small: "fits_ssize_t 1" "fits_ssize_t 5" "fits_ssize_t (- 1)" "fits_ssize_t (- 5)"
  "\<not> fits_ssize_t (2 ^ 63)"
  by (simp_all add: fits_ssize_t_def PY_SSIZE_T_MAX_def)

theorem table_index_bounds_witness:
  "get_entry ex_table 1 = Inl IndexError \<and> get_entry ex_table (- 2) = Inl IndexError
   \<and> get_entry ex_table (2 ^ 63) = Inl IndexError
   \<and> get_entry ex_table (- 1) = Inr 0
   \<and> pop_entry ex_table 1 = Inl IndexError
   \<and> pop_entry ex_table (2 ^ 63) = Inl OverflowError
   \<and> pop_entry ex_table (- 1) = Inr (0, ex_table\<lparr>entries := []\<rparr>)
   \<and> insert_entry ex_table (2 ^ 63) 1 = Inl OverflowError
   \<and> insert_entry ex_table 1 1 = Inr (ex_table\<lparr>entries := [0, 1]\<rparr>)
   \<and> insert_entry ex_table 5 1 = Inr (ex_table\<lparr>entries := [0, 1]\<rparr>)
   \<and> insert_entry ex_table (- 1) 1 = Inr (ex_table\<lparr>entries := [1, 0]\<rparr>)
   \<and> insert_entry ex_table (- 5) 1 = Inr (ex_table\<lparr>entries := [1, 0]\<rparr>)"
proof -
  have n: "get_entry_count ex_table = 1" and es: "entries ex_table = [0]"
    by (simp_all add: ex_table_def get_entry_count_def)
  show ?thesis
    using table_index_bounds [of ex_table 1 1] table_index_bounds [of ex_table "- 2" 1]
      table_index_bounds [of ex_table "- 1" 1] table_index_bounds [of ex_table 5 1]
      table_index_bounds [of ex_table "- 5" 1] table_index_bounds [of ex_table "2 ^ 63" 1]
      fits_ssize_t_small
    by (auto simp add: n es)
qed

text \<open>
  The claim C5 as stated fails: on a table of one row the index \<open>-1\<close> is outside
  \<open>[0, 1)\<close>, yet \<open>get_entry\<close> and \<open>pop_entry\<close> return the row; and the index \<open>5\<close>
  is beyond the row count, yet \<open>insert_entry\<close> adds the row at the end.
\<close>

theorem strict_bounds_counterexample:
  "get_entry_count ex_table = 1
   \<and> get_entry ex_table (- 1) = Inr 0
   \<and> pop_entry ex_table (- 1) = Inr (0, ex_table\<lparr>entries := []\<rparr>)
   \<and> insert_entry ex_table 5 1 = Inr (ex_table\<lparr>entries := [0, 1]\<rparr>)"
  by (simp add: ex_table_def get_entry_count_def get_entry_def pop_entry_def list_pop_def
      list_getitem_def list_index_def insert_entry_def list_insert_def fits_ssize_t_def
      PY_SSIZE_T_MAX_def)

section \<open>Parsing: from records to a table\<close>

lemma Entry_init_row: "Entry_init 0 (Some row) = entry_of_row row"
  by (cases row) (auto simp add: Entry_init_def entry_of_row_def)

lemma entry_ok_entry_of_row: "entry_ok (entry_of_row row)"
  using entry_ok_Entry_init [of 0 "Some row"] by (simp add: Entry_init_row)

lemma upt_shift: "[n..<Suc (n + k)] = n # [Suc n..<Suc (n + k)]"
  by (rule upt_conv_Cons) simp

lemma allocate_rows:
  "foldl (\<lambda>(h', es) row. (h' @ [Entry_init 0 (Some row)], es @ [length h'])) (h, es) data
   = (h @ map entry_of_row data, es @ [length h..<length h + length data])"
proof (induction data arbitrary: h es)
  case Nil
  then show ?case by simp
next
  case (Cons row data)
  show ?case
    using Cons.IH [of "h @ [Entry_init 0 (Some row)]" "es @ [length h]"]
    by (simp add: Entry_init_row upt_shift del: upt_Suc)
qed

lemma copy_rows:
  assumes "\<forall>r \<in> set rs. r < length h \<and> entry_ok (h ! r)"
  shows "foldM (\<lambda>(h', es) r. bind (get_deep_copy (h' ! r)) (\<lambda>c. Inr (h' @ [c], es @ [length h'])))
           (h, es) rs
         = Inr (h @ map (\<lambda>r. h ! r) rs, es @ [length h..<length h + length rs])"
  using assms
proof (induction rs arbitrary: h es)
  case Nil
  then show ?case by simp
next
  case (Cons r rs)
  have r: "r < length h" "entry_ok (h ! r)"
    using Cons.prems by simp_all
  have rest: "\<forall>r' \<in> set rs. r' < length (h @ [h ! r]) \<and> entry_ok ((h @ [h ! r]) ! r')"
    using Cons.prems by (auto simp add: nth_append)
  have same: "map (\<lambda>r'. (h @ [h ! r]) ! r') rs = map (\<lambda>r'. h ! r') rs"
    using Cons.prems by (auto simp add: nth_append)
  show ?case
    using Cons.IH [OF rest, of "es @ [length h]"]
    by (simp add: get_deep_copy_ok [OF r(2)] same upt_shift del: upt_Suc)
qed

lemma Table_init_ok:
  assumes "\<forall>r \<in> set rs. r < length h \<and> entry_ok (h ! r)"
  shows "Table_init h hdr (Some rs)
         = Inr (h @ map (\<lambda>r. h ! r) rs,
                \<lparr>header = hdr, entries = [length h..<length h + length rs]\<rparr>)"
  using copy_rows [OF assms, of "[]"] by (simp add: Table_init_def)

lemma nth_map_upt_append:
  "map (\<lambda>r. (xs @ ys) ! r) [length xs..<length xs + length ys] = ys"
  by (intro nth_equalityI) (simp_all add: nth_append)

lemma CSV_to_table_rows:
  assumes "reader_rows parse_reset (file_lines content) = Inr (header_list # data)"
  shows "\<exists>h' t. CSV_to_table h content = Inr (h', t)
               \<and> table_value h' t = (header_list, map entry_of_row data)"
proof -
  let ?h1 = "h @ map entry_of_row data"
  let ?rs = "[length h..<length h + length data]"
  have valid: "\<forall>r \<in> set ?rs. r < length ?h1 \<and> entry_ok (?h1 ! r)"
    by (auto simp add: nth_append entry_ok_entry_of_row)
  have copies: "map (\<lambda>r. ?h1 ! r) ?rs = map entry_of_row data"
    using nth_map_upt_append [of h "map entry_of_row data"] by simp
  let ?h2 = "?h1 @ map entry_of_row data"
  let ?t = "\<lparr>header = \<lparr>column_names = header_list\<rparr>,
             entries = [length ?h1..<length ?h1 + length ?rs]\<rparr>"
  have "CSV_to_table h content = Inr (?h2, ?t)"
    using assms Table_init_ok [OF valid]
    by (simp add: CSV_to_table_def allocate_rows copies)
  moreover have "table_value ?h2 ?t = (header_list, map entry_of_row data)"
    using nth_map_upt_append [of ?h1 "map entry_of_row data"]
    by (simp add: table_value_def)
  ultimately show ?thesis by blast
qed

lemmas reader_defs = feed_line_def parse_process_char_def start_field_def is_newline_def
  end_of_record_def parse_save_field_def parse_add_char_def parse_reset_def field_limit_def
  LF_def CR_def delimiter_def quotechar_def

lemma ex_short_csv_lines:
  "file_lines ex_short_csv = [''Name,Email,Phone'' @ [LF], ''Alice,'' @ [LF]]"
  by (simp add: ex_short_csv_def file_lines_def LF_def CR_def)

lemma ex_short_csv_rows:
  "reader_rows parse_reset (file_lines ex_short_csv)
   = Inr [[''Name'', ''Email'', ''Phone''], [''Alice'', '''']]"
  unfolding ex_short_csv_lines by (simp add: reader_defs)

text \<open>
  C8. When the reader yields a header record and data records, \<open>CSV_to_table\<close>
  returns a table whose rows are built from the data records one by one, each from its
  own fields only: the entry has as many columns as the record has fields, whatever the
  width of the header, a non-empty field is the single value of its column and an empty
  field leaves its column empty.
\<close>

theorem short_row_not_padded:
  assumes "reader_rows parse_reset (file_lines content) = Inr (header_list # data)"
  shows "\<exists>h' t. CSV_to_table h content = Inr (h', t)
           \<and> fst (table_value h' t) = header_list
           \<and> length (snd (table_value h' t)) = length data
           \<and> (\<forall>j < length data.
                 column_count (snd (table_value h' t) ! j) = int (length (data ! j))
               \<and> cell_values (snd (table_value h' t) ! j)
                   = map (\<lambda>f. if f = '''' then [] else [f]) (data ! j))"
proof -
  obtain h' t where parsed: "CSV_to_table h content = Inr (h', t)"
    and v: "table_value h' t = (header_list, map entry_of_row data)"
    using CSV_to_table_rows [OF assms] by blast
  have "column_count (snd (table_value h' t) ! j) = int (length (data ! j))
      \<and> cell_values (snd (table_value h' t) ! j) = map (\<lambda>f. if f = '''' then [] else [f]) (data ! j)"
    if "j < length data" for j
    using that by (simp add: v entry_of_row_def)
  with parsed v show ?thesis by auto
qed

theorem short_row_not_padded_witness:
  "reader_rows parse_reset (file_lines ex_short_csv)
     = Inr ([''Name'', ''Email'', ''Phone''] # [[''Alice'', '''']])
   \<and> (\<exists>h' t. CSV_to_table [] ex_short_csv = Inr (h', t)
           \<and> fst (table_value h' t) = [''Name'', ''Email'', ''Phone'']
           \<and> length (snd (table_value h' t)) = 1
           \<and> column_count (snd (table_value h' t) ! 0) = 2
           \<and> cell_values (snd (table_value h' t) ! 0) = [[''Alice''], []])"
proof -
  have rows: "reader_rows parse_reset (file_lines ex_short_csv)
     = Inr ([''Name'', ''Email'', ''Phone''] # [[''Alice'', '''']])"
    by (rule ex_short_csv_rows)
  show ?thesis
    using short_row_not_padded [OF rows, of "[]"] rows by auto
qed

section \<open>Parsing: the empty input\<close>

lemma universal_newlines_Nil_iff: "universal_newlines s = [] \<longleftrightarrow> s = []"
  by (induction s rule: universal_newlines.induct) auto

lemma readlines_Nil_iff: "readlines s = [] \<longleftrightarrow> s = []"
  by (cases s) (auto split: list.splits)

lemma file_lines_Nil_iff: "file_lines content = [] \<longleftrightarrow> content = []"
  by (simp add: file_lines_def readlines_Nil_iff universal_newlines_Nil_iff)

lemma parse_add_char_error: "parse_add_char s c = Inl e \<Longrightarrow> e = CsvError"
  by (auto simp add: parse_add_char_def split: if_splits)

lemma parse_process_char_error: "parse_process_char s c = Inl e \<Longrightarrow> e = CsvError"
  by (cases "rd_state s"; cases c)
    (auto simp add: parse_process_char_def start_field_def bind_def
      split: if_splits sum.splits dest: parse_add_char_error)

lemma foldM_error:
  assumes "\<And>s x e. f s x = Inl e \<Longrightarrow> e = CsvError"
  shows "foldM f s xs = Inl e \<Longrightarrow> e = CsvError"
  by (induction xs arbitrary: s) (auto split: sum.splits dest: assms)

lemma feed_line_error: "feed_line s line = Inl e \<Longrightarrow> e = CsvError"
proof -
  assume a: "feed_line s line = Inl e"
  show ?thesis
  proof (cases "foldM (\<lambda>s ch. parse_process_char s (Some ch)) s line")
    case (Inl e')
    then have "e' = CsvError"
      by (rule foldM_error [rotated]) (rule parse_process_char_error)
    with a Inl show ?thesis by (simp add: feed_line_def)
  next
    case (Inr s')
    with a show ?thesis
      by (simp add: feed_line_def parse_process_char_error)
  qed
qed

lemma reader_rows_error: "reader_rows s lines = Inl e \<Longrightarrow> e = CsvError"
  by (induction s lines rule: reader_rows.induct)
    (auto split: sum.splits if_splits dest: feed_line_error)

text \<open>After the end-of-line mark the automaton is at the start of a record or inside a
  quoted field.\<close>

lemma end_of_line_state:
  "parse_process_char s None = Inr s' \<Longrightarrow>
   rd_state s' = START_RECORD \<or> rd_state s' = IN_QUOTED_FIELD"
  by (cases "rd_state s")
    (auto simp add: parse_process_char_def start_field_def end_of_record_def parse_save_field_def)

lemma feed_line_state:
  "feed_line s line = Inr s' \<Longrightarrow> rd_state s' = START_RECORD \<or> rd_state s' = IN_QUOTED_FIELD"
  by (cases "foldM (\<lambda>s ch. parse_process_char s (Some ch)) s line")
    (auto simp add: feed_line_def dest: end_of_line_state)

lemma reader_rows_in_quoted:
  "rd_state s = IN_QUOTED_FIELD \<Longrightarrow> reader_rows s lines \<noteq> Inr []"
proof (induction lines arbitrary: s)
  case Nil
  then show ?case by simp
next
  case (Cons line rest)
  show ?case
  proof (cases "feed_line s line")
    case (Inl e)
    then show ?thesis by simp
  next
    case (Inr s')
    then show ?thesis
      using feed_line_state [OF Inr] Cons.IH [of s']
      by (auto split: sum.splits)
  qed
qed

lemma reader_rows_Cons: "reader_rows s (line # rest) \<noteq> Inr []"
proof (cases "feed_line s line")
  case (Inl e)
  then show ?thesis by simp
next
  case (Inr s')
  then show ?thesis
    using feed_line_state [OF Inr] reader_rows_in_quoted [of s' rest]
    by (auto split: sum.splits)
qed

lemma no_records_iff:
  "reader_rows parse_reset (file_lines content) = Inr [] \<longleftrightarrow> content = []"
proof
  assume a: "reader_rows parse_reset (file_lines content) = Inr []"
  show "content = []"
  proof (cases "file_lines content")
    case Nil
    then show ?thesis by (simp add: file_lines_Nil_iff)
  next
    case (Cons line rest)
    then show ?thesis using a reader_rows_Cons by simp
  qed
next
  assume "content = []"
  then show "reader_rows parse_reset (file_lines content) = Inr []"
    by (simp add: file_lines_def parse_reset_def)
qed

text \<open>
  C10. An input with no record at all is the empty file: the reader yields no record
  exactly then. On it \<open>CSV_to_table\<close> raises \<open>StopIteration\<close>, so it returns no
  table and raises no \<open>csv.Error\<close>; and \<open>StopIteration\<close> is raised on no other
  input.
\<close>

theorem empty_input_raises_StopIteration:
  "(reader_rows parse_reset (file_lines content) = Inr [] \<longrightarrow>
      CSV_to_table h content = Inl StopIteration)
   \<and> (reader_rows parse_reset (file_lines content) = Inr [] \<longleftrightarrow> content = [])
   \<and> (CSV_to_table h content = Inl StopIteration \<longleftrightarrow> content = [])"
proof -
  have stop: "CSV_to_table h content = Inl StopIteration"
    if "reader_rows parse_reset (file_lines content) = Inr []"
    using that by (simp add: CSV_to_table_def)
  have only: "content = []" if a: "CSV_to_table h content = Inl StopIteration"
  proof (cases "reader_rows parse_reset (file_lines content)")
    case (Inl e)
    then have "e = CsvError" by (rule reader_rows_error)
    with a Inl show ?thesis by (simp add: CSV_to_table_def)
  next
    case (Inr rows)
    show ?thesis
    proof (cases rows)
      case Nil
      with Inr show ?thesis by (simp add: no_records_iff)
    next
      case (Cons header_list data)
      with Inr CSV_to_table_rows [of content header_list data h] a show ?thesis by auto
    qed
  qed
  show ?thesis
    using stop only no_records_iff by blast
qed

theorem empty_input_raises_StopIteration_witness:
  "reader_rows parse_reset (file_lines []) = Inr []
   \<and> CSV_to_table [] [] = Inl StopIteration"
  using empty_input_raises_StopIteration [of "[]" "[]"] by simp

section \<open>The reader on what the writer wrote\<close>




lemma feed_chars_append:
  "feed_chars s (a @ b) = bind (feed_chars s a) (\<lambda>s'. feed_chars s' b)"
  by (simp add: feed_chars_def foldM_append)

lemma feed_line_feed_chars:
  "feed_line s line = bind (feed_chars s line) (\<lambda>s'. parse_process_char s' None)"
  by (simp add: feed_line_def feed_chars_def)






subsection \<open>The reader on a text\<close>











subsection \<open>Records\<close>


















subsection \<open>The whole file\<close>








section \<open>Serializing and the round trip\<close>

lemma get_value_str_from_columns_prefix:
  assumes "well_formed e" and "n \<le> length (cell_values e)"
  shows "foldM (\<lambda>value_strings column_index.
                  bind (get_value_str_from_column e column_index sep)
                    (\<lambda>value_string. Inr (value_strings @ [value_string])))
           acc (py_range (int n))
         = Inr (acc @ map (join sep) (take n (cell_values e)))"
  using assms(2)
proof (induction n)
  case 0
  then show ?case by (simp add: py_range_0)
next
  case (Suc n)
  have n: "n < length (cell_values e)" using Suc.prems by simp
  have "get_value_str_from_column e (int n) sep = Inr (join sep (cell_values e ! n))"
    using n assms(1)
    by (simp add: get_value_str_from_column_def well_formed_def get_values_from_column_nth)
  then show ?case
    using Suc.IH n
    by (simp add: py_range_Suc foldM_append take_Suc_conv_app_nth del: of_nat_Suc)
qed

lemma get_value_str_from_columns_wf:
  assumes "well_formed e"
  shows "get_value_str_from_columns e '', '' = Inr (display_strings e)"
proof -
  have "column_count e = int (length (cell_values e))"
    using assms by (simp add: well_formed_def)
  then show ?thesis
    using get_value_str_from_columns_prefix [OF assms, of "length (cell_values e)" "'', ''" "[]"]
    by (simp add: get_value_str_from_columns_def display_strings_def)
qed

lemma table_to_CSV_wf:
  assumes "\<forall>r \<in> set (entries t). well_formed (h ! r)"
  shows "table_to_CSV h t encoding = encode_all encoding (map writerow (csv_rows h t))"
proof -
  have "foldM (\<lambda>bs r. bind (get_value_str_from_columns (h ! r) '', '')
                          (\<lambda>value_strings. write_text encoding bs (writerow value_strings)))
          bs (entries t)
        = foldM (\<lambda>bs r. write_text encoding bs (writerow (display_strings (h ! r))))
            bs (entries t)" for bs
    using assms by (intro foldM_cong_set) (simp add: get_value_str_from_columns_wf)
  also have "foldM (\<lambda>bs r. write_text encoding bs (writerow (display_strings (h ! r))))
               bs (entries t)
             = foldM (write_text encoding) bs
                 (map (\<lambda>r. writerow (display_strings (h ! r))) (entries t))" for bs
    by (simp add: foldM_map)
  finally have loop: "foldM (\<lambda>bs r. bind (get_value_str_from_columns (h ! r) '', '')
                          (\<lambda>value_strings. write_text encoding bs (writerow value_strings)))
          bs (entries t)
        = foldM (write_text encoding) bs
            (map (\<lambda>r. writerow (display_strings (h ! r))) (entries t))" for bs .
  show ?thesis
    by (cases "write_text encoding [] (writerow (column_names (header t)))")
      (simp_all add: table_to_CSV_def encode_all_def csv_rows_def Table_get_column_names_def
        Header_get_column_names_def get_entries_def loop comp_def)
qed







lemma write_all_latin_1:
  "foldM (write_text latin_1_codec) bs texts = Inr (bs @ concat texts)"
  by (induction texts arbitrary: bs) (simp_all add: write_text_def latin_1_codec_def)







subsection \<open>Why the conditions are there\<close>

text \<open>
  An encoding that cannot write a character of the table makes \<open>table_to_CSV\<close> raise:
  \<open>ascii\<close> has no byte for a character above 127.
\<close>

lemma ascii_cannot_write_accent:
  "table_to_CSV [] ex_accent_table ascii_codec = Inl UnicodeEncodeError"
  by (simp add: table_to_CSV_def ex_accent_table_def Table_get_column_names_def
      Header_get_column_names_def get_entries_def write_text_def ascii_codec_def writerow_def
      join_append_def needs_quoting_def lineterminator_def is_ascii_def delimiter_def
      quotechar_def CR_def LF_def)

text \<open>
  A CR inside a value is written as it is, inside quotes, and reading the file in text
  mode turns it into LF: the value comes back changed.
\<close>

lemma carriage_return_not_preserved:
  "table_to_CSV ex_cr_heap ex_cr_table latin_1_codec = Inr ex_cr_content
   \<and> roundtrip ex_cr_heap ex_cr_table latin_1_codec
       = Inr (ex_cr_heap @ [\<lparr>column_count = 1, cell_values = [[''a'' @ [LF] @ ''b'']]\<rparr>,
                            \<lparr>column_count = 1, cell_values = [[''a'' @ [LF] @ ''b'']]\<rparr>],
              \<lparr>header = \<lparr>column_names = [''h'']\<rparr>, entries = [2]\<rparr>)"
proof -
  have wf: "\<forall>r \<in> set (entries ex_cr_table). well_formed (ex_cr_heap ! r)"
    by (simp add: ex_cr_table_def ex_cr_heap_def well_formed_def)
  have rows: "map writerow (csv_rows ex_cr_heap ex_cr_table)
              = [''h'' @ [CR, LF], [quotechar] @ ''a'' @ [CR] @ ''b'' @ [quotechar] @ [CR, LF]]"
    by (simp add: csv_rows_def ex_cr_heap_def ex_cr_table_def display_strings_def
        writerow_def join_append_def needs_quoting_def lineterminator_def delimiter_def
        quotechar_def CR_def LF_def)
  have written: "table_to_CSV ex_cr_heap ex_cr_table latin_1_codec = Inr ex_cr_content"
    unfolding table_to_CSV_wf [OF wf] rows encode_all_def write_all_latin_1
    by (simp add: ex_cr_content_def)
  have decoded: "decode latin_1_codec ex_cr_content = Inr ex_cr_content"
    by (simp add: latin_1_codec_def)
  have lines: "file_lines ex_cr_content
       = [''h'' @ [LF], [quotechar] @ ''a'' @ [LF], ''b'' @ [quotechar] @ [LF]]"
    by (simp add: ex_cr_content_def file_lines_def CR_def LF_def quotechar_def)
  have parsed_rows: "reader_rows parse_reset (file_lines ex_cr_content)
                     = Inr [[''h''], [''a'' @ [LF] @ ''b'']]"
    unfolding lines by (simp add: reader_defs)
  have copy: "get_deep_copy \<lparr>column_count = 1, cell_values = [[''a'' @ [LF] @ ''b'']]\<rparr>
              = Inr \<lparr>column_count = 1, cell_values = [[''a'' @ [LF] @ ''b'']]\<rparr>"
    by (rule get_deep_copy_ok) (simp add: entry_ok_def well_formed_def cell_ok_def)
  have parsed: "CSV_to_table ex_cr_heap ex_cr_content
       = Inr (ex_cr_heap @ [\<lparr>column_count = 1, cell_values = [[''a'' @ [LF] @ ''b'']]\<rparr>,
                            \<lparr>column_count = 1, cell_values = [[''a'' @ [LF] @ ''b'']]\<rparr>],
              \<lparr>header = \<lparr>column_names = [''h'']\<rparr>, entries = [2]\<rparr>)"
    using copy
    by (simp add: CSV_to_table_def parsed_rows Entry_init_def Table_init_def ex_cr_heap_def)
  have rt: "roundtrip ex_cr_heap ex_cr_table latin_1_codec
       = Inr (ex_cr_heap @ [\<lparr>column_count = 1, cell_values = [[''a'' @ [LF] @ ''b'']]\<rparr>,
                            \<lparr>column_count = 1, cell_values = [[''a'' @ [LF] @ ''b'']]\<rparr>],
              \<lparr>header = \<lparr>column_names = [''h'']\<rparr>, entries = [2]\<rparr>)"
    by (simp only: roundtrip_def written bind_Inr CSV_file_to_table_def decoded parsed)
  show ?thesis
    using written rt by simp
qed

end
